theory Spec2Isabelle
  imports Complex_Main "HOL-Library.Char_ord" "HOL-Library.List_Lexorder"
begin

section \<open>Data model\<close>

text \<open>
  \<^verbatim>\<open>struct Course\<close> of \<^verbatim>\<open>Project_Two.cpp\<close>. A \<^verbatim>\<open>std::string\<close> is a \<^typ>\<open>string\<close>;
  \<^verbatim>\<open>operator<\<close> on \<^verbatim>\<open>std::string\<close> is the lexicographic order over the characters
  read as unsigned bytes, which is the order of \<open>List_Lexorder\<close> over \<open>Char_ord\<close>.
\<close>

record Course =
  number :: string
  title :: string
  prerequisites :: "string list"

text \<open>
  \<^verbatim>\<open>struct AVLNode\<close>: every node is owned by exactly one parent link, so the pointer
  graph is a tree; \<open>Null\<close> is \<^verbatim>\<open>nullptr\<close>. The fields are, in the order of the
  source, key, value, height, left, right. The height is a C++ \<^verbatim>\<open>int\<close>, modelled as
  an unbounded integer (an AVL tree that fits in memory has a height far below
  the range of \<^verbatim>\<open>int\<close>).
\<close>

datatype AVLNode = Null | Node string Course int AVLNode AVLNode

section \<open>Height bookkeeping and rotations\<close>

fun nodeHeight :: "AVLNode \<Rightarrow> int" where
  "nodeHeight Null = 0"
| "nodeHeight (Node k v h l r) = h"

fun balanceFactor :: "AVLNode \<Rightarrow> int" where
  "balanceFactor Null = 0"
| "balanceFactor (Node k v h l r) = nodeHeight l - nodeHeight r"

fun updateHeight :: "AVLNode \<Rightarrow> AVLNode" where
  "updateHeight Null = Null"
| "updateHeight (Node k v h l r) = Node k v (1 + max (nodeHeight l) (nodeHeight r)) l r"

text \<open>
  The rotations dereference \<^verbatim>\<open>y->left\<close> (respectively \<^verbatim>\<open>x->right\<close>) without a
  check. A null dereference is the result \<open>None\<close>.
\<close>

fun rotateRight :: "AVLNode \<Rightarrow> AVLNode option" where
  "rotateRight (Node ky vy hy (Node kx vx hx lx T2) ry) =
     (let y = updateHeight (Node ky vy hy T2 ry)
      in Some (updateHeight (Node kx vx hx lx y)))"
| "rotateRight _ = None"

fun rotateLeft :: "AVLNode \<Rightarrow> AVLNode option" where
  "rotateLeft (Node kx vx hx lx (Node ky vy hy T2 ry)) =
     (let x = updateHeight (Node kx vx hx lx T2)
      in Some (updateHeight (Node ky vy hy x ry)))"
| "rotateLeft _ = None"

section \<open>Insertion\<close>

text \<open>\<^verbatim>\<open>n->key\<close>, a fault when \<open>n\<close> is null.\<close>

fun keyOf :: "AVLNode \<Rightarrow> string option" where
  "keyOf Null = None"
| "keyOf (Node k v h l r) = Some k"

text \<open>
  \<^verbatim>\<open>a && b\<close> where evaluating \<open>b\<close> may fault: \<open>b\<close> is evaluated only when \<open>a\<close> holds.
\<close>

definition andAlso :: "bool \<Rightarrow> bool option \<Rightarrow> bool option" where
  "andAlso a b = (if a then b else Some False)"

text \<open>The branch of the rebalancing code that an insertion step takes.\<close>

datatype rebalanceCase = LeftLeft | RightRight | LeftRight | RightLeft | NoRotation

text \<open>
  The part of \<^verbatim>\<open>avlInsert\<close> after the descent (from \<^verbatim>\<open>updateHeight(node)\<close> to the
  final \<^verbatim>\<open>return node\<close>), for the non-null \<open>node\<close> with the fields \<open>k v h l r\<close>.
  The four conditions are tested in the order of the source. Besides the
  returned subtree the model reports which branch returned.
\<close>

definition rebalance ::
  "string \<Rightarrow> Course \<Rightarrow> int \<Rightarrow> AVLNode \<Rightarrow> AVLNode \<Rightarrow> string \<Rightarrow> (rebalanceCase \<times> AVLNode) option" where
  "rebalance k v h l r key =
    (let node = updateHeight (Node k v h l r);
         bf = balanceFactor node
     in case andAlso (bf > 1) (map_option (\<lambda>kl. key < kl) (keyOf l)) of
          None \<Rightarrow> None
        | Some True \<Rightarrow> map_option (Pair LeftLeft) (rotateRight node)
        | Some False \<Rightarrow>
     (case andAlso (bf < - 1) (map_option (\<lambda>kr. key > kr) (keyOf r)) of
          None \<Rightarrow> None
        | Some True \<Rightarrow> map_option (Pair RightRight) (rotateLeft node)
        | Some False \<Rightarrow>
     (case andAlso (bf > 1) (map_option (\<lambda>kl. key > kl) (keyOf l)) of
          None \<Rightarrow> None
        | Some True \<Rightarrow>
            (case rotateLeft l of
               None \<Rightarrow> None
             | Some l' \<Rightarrow>
                 map_option (Pair LeftRight)
                   (rotateRight (Node k v (1 + max (nodeHeight l) (nodeHeight r)) l' r)))
        | Some False \<Rightarrow>
     (case andAlso (bf < - 1) (map_option (\<lambda>kr. key < kr) (keyOf r)) of
          None \<Rightarrow> None
        | Some True \<Rightarrow>
            (case rotateRight r of
               None \<Rightarrow> None
             | Some r' \<Rightarrow>
                 map_option (Pair RightLeft)
                   (rotateLeft (Node k v (1 + max (nodeHeight l) (nodeHeight r)) l r')))
        | Some False \<Rightarrow> Some (NoRotation, node)))))"

fun avlInsert :: "AVLNode \<Rightarrow> string \<Rightarrow> Course \<Rightarrow> AVLNode option" where
  "avlInsert Null key val = Some (Node key val 1 Null Null)"
| "avlInsert (Node k v h l r) key val =
    (if key < k then
       (case avlInsert l key val of
          None \<Rightarrow> None
        | Some l' \<Rightarrow> map_option snd (rebalance k v h l' r key))
     else if key > k then
       (case avlInsert r key val of
          None \<Rightarrow> None
        | Some r' \<Rightarrow> map_option snd (rebalance k v h l r' key))
     else Some (Node k val h l r))"

text \<open>
  The same function with a log: the rotation branches taken on the way back
  up, innermost node first. Its tree is that of \<open>avlInsert\<close> (lemma
  \<open>avlInsertLog_tree\<close>).
\<close>

fun avlInsertLog :: "AVLNode \<Rightarrow> string \<Rightarrow> Course \<Rightarrow> (AVLNode \<times> rebalanceCase list) option" where
  "avlInsertLog Null key val = Some (Node key val 1 Null Null, [])"
| "avlInsertLog (Node k v h l r) key val =
    (if key < k then
       (case avlInsertLog l key val of
          None \<Rightarrow> None
        | Some (l', cs) \<Rightarrow>
            map_option (\<lambda>(c, t). (t, if c = NoRotation then cs else cs @ [c]))
              (rebalance k v h l' r key))
     else if key > k then
       (case avlInsertLog r key val of
          None \<Rightarrow> None
        | Some (r', cs) \<Rightarrow>
            map_option (\<lambda>(c, t). (t, if c = NoRotation then cs else cs @ [c]))
              (rebalance k v h l r' key))
     else Some (Node k val h l r, []))"

text \<open>
  A sequence of inserts, as the ingestion loop performs them
  (\<^verbatim>\<open>root = avlInsert(root, key, value)\<close> for each record).
\<close>

fun insertAll :: "AVLNode \<Rightarrow> (string \<times> Course) list \<Rightarrow> AVLNode option" where
  "insertAll t [] = Some t"
| "insertAll t ((key, val) # kvs) =
    (case avlInsert t key val of None \<Rightarrow> None | Some t' \<Rightarrow> insertAll t' kvs)"

fun insertAllLog :: "AVLNode \<Rightarrow> (string \<times> Course) list \<Rightarrow> (AVLNode \<times> rebalanceCase list list) option" where
  "insertAllLog t [] = Some (t, [])"
| "insertAllLog t ((key, val) # kvs) =
    (case avlInsertLog t key val of
       None \<Rightarrow> None
     | Some (t', cs) \<Rightarrow> map_option (\<lambda>(t'', css). (t'', cs # css)) (insertAllLog t' kvs))"

section \<open>Lookup and traversal\<close>

text \<open>
  \<^verbatim>\<open>avlFind\<close>: the \<^verbatim>\<open>while (node)\<close> loop descends one level per iteration, so it
  is a structural recursion. The result is the node found, or \<open>Null\<close> for
  \<^verbatim>\<open>nullptr\<close>.
\<close>

fun avlFind :: "AVLNode \<Rightarrow> string \<Rightarrow> AVLNode" where
  "avlFind Null key = Null"
| "avlFind (Node k v h l r) key =
    (if key < k then avlFind l key
     else if key > k then avlFind r key
     else Node k v h l r)"

text \<open>
  \<^verbatim>\<open>avlInOrder\<close> writes one line per node to standard output; the model returns
  the text written.
\<close>

fun avlInOrder :: "AVLNode \<Rightarrow> string" where
  "avlInOrder Null = []"
| "avlInOrder (Node k v h l r) =
     avlInOrder l @ (k @ '': '' @ title v @ [CHR 0x0A]) @ avlInOrder r"

text \<open>The nodes in the order in which \<^verbatim>\<open>avlInOrder\<close> visits them.\<close>

fun inOrderNodes :: "AVLNode \<Rightarrow> (string \<times> Course) list" where
  "inOrderNodes Null = []"
| "inOrderNodes (Node k v h l r) = inOrderNodes l @ (k, v) # inOrderNodes r"

definition keysOf :: "AVLNode \<Rightarrow> string list" where
  "keysOf t = map fst (inOrderNodes t)"

definition courseLine :: "string \<times> Course \<Rightarrow> string" where
  "courseLine kv = fst kv @ '': '' @ title (snd kv) @ [CHR 0x0A]"

text \<open>The value of the node a lookup returned; \<open>None\<close> for \<^verbatim>\<open>nullptr\<close>.\<close>

fun foundValue :: "AVLNode \<Rightarrow> Course option" where
  "foundValue Null = None"
| "foundValue (Node k v h l r) = Some v"

section \<open>The invariants of the tree\<close>

text \<open>Invariant 1, BST order.\<close>

fun bstOrder :: "AVLNode \<Rightarrow> bool" where
  "bstOrder Null = True"
| "bstOrder (Node k v h l r) =
     (list_all (\<lambda>x. x < k) (keysOf l) \<and> list_all (\<lambda>x. k < x) (keysOf r)
      \<and> bstOrder l \<and> bstOrder r)"

text \<open>Invariant 2, height correctness.\<close>

fun heightCorrect :: "AVLNode \<Rightarrow> bool" where
  "heightCorrect Null = True"
| "heightCorrect (Node k v h l r) =
     (h = 1 + max (nodeHeight l) (nodeHeight r) \<and> heightCorrect l \<and> heightCorrect r)"

text \<open>Invariant 3, AVL balance.\<close>

fun avlBalanced :: "AVLNode \<Rightarrow> bool" where
  "avlBalanced Null = True"
| "avlBalanced (Node k v h l r) =
     (\<bar>nodeHeight l - nodeHeight r\<bar> \<le> 1 \<and> avlBalanced l \<and> avlBalanced r)"

definition avlInvariant :: "AVLNode \<Rightarrow> bool" where
  "avlInvariant t = (bstOrder t \<and> heightCorrect t \<and> avlBalanced t)"

text \<open>
  The shape of a tree: its nodes with their keys, heights and links, without
  the stored values.
\<close>

datatype shape = SNull | SNode string int shape shape

fun shapeOf :: "AVLNode \<Rightarrow> shape" where
  "shapeOf Null = SNull"
| "shapeOf (Node k v h l r) = SNode k h (shapeOf l) (shapeOf r)"

text \<open>
  The subtree leans to the side of \<open>key\<close>: what holds of a subtree that an
  insertion of \<open>key\<close> has made one higher.
\<close>

fun leansToward :: "AVLNode \<Rightarrow> string \<Rightarrow> bool" where
  "leansToward Null key = False"
| "leansToward (Node k v h l r) key =
     (if key < k then nodeHeight l = nodeHeight r + 1
      else if k < key then nodeHeight r = nodeHeight l + 1
      else h = 1)"

text \<open>
  The four rotation conditions of \<^verbatim>\<open>avlInsert\<close>, in the order of the source, for
  a node with the children \<open>l\<close> and \<open>r\<close> whose height has been updated.
\<close>

definition caseConditions :: "AVLNode \<Rightarrow> AVLNode \<Rightarrow> string \<Rightarrow> bool option list" where
  "caseConditions l r key =
    (let bf = nodeHeight l - nodeHeight r
     in [andAlso (bf > 1) (map_option (\<lambda>kl. key < kl) (keyOf l)),
         andAlso (bf < - 1) (map_option (\<lambda>kr. key > kr) (keyOf r)),
         andAlso (bf > 1) (map_option (\<lambda>kl. key > kl) (keyOf l)),
         andAlso (bf < - 1) (map_option (\<lambda>kr. key < kr) (keyOf r))])"

text \<open>The number of nodes of a tree.\<close>

fun nodeCount :: "AVLNode \<Rightarrow> nat" where
  "nodeCount Null = 0"
| "nodeCount (Node k v h l r) = nodeCount l + 1 + nodeCount r"

text \<open>A record with the number \<open>k\<close>, for concrete trees.\<close>

definition course :: "string \<Rightarrow> Course" where
  "course k = \<lparr>number = k, title = ''Title of '' @ k, prerequisites = []\<rparr>"


section \<open>String utilities\<close>

text \<open>
  \<^verbatim>\<open>std::isspace\<close> and \<^verbatim>\<open>std::toupper\<close> on an \<^verbatim>\<open>unsigned char\<close>, in the "C" locale
  (the program never sets another one): the white-space characters are space,
  \<^verbatim>\<open>\t \n \v \f \r\<close>; the letters \<open>a\<close> to \<open>z\<close> are mapped to \<open>A\<close> to \<open>Z\<close>.
\<close>

definition isspace :: "char \<Rightarrow> bool" where
  "isspace c = (c \<in> set [CHR '' '', CHR 0x09, CHR 0x0A, CHR 0x0B, CHR 0x0C, CHR 0x0D])"

definition lowerLetters :: string where
  "lowerLetters = ''abcdefghijklmnopqrstuvwxyz''"

definition upperLetters :: string where
  "upperLetters = ''ABCDEFGHIJKLMNOPQRSTUVWXYZ''"

definition toupper :: "char \<Rightarrow> char" where
  "toupper c =
    (case map_of (zip lowerLetters upperLetters) c of
       Some u \<Rightarrow> u
     | None \<Rightarrow> c)"

text \<open>
  \<^verbatim>\<open>trim\<close>: the first loop skips leading white space, the second loop drops
  trailing white space of what is left.
\<close>

definition trim :: "string \<Rightarrow> string" where
  "trim s = rev (dropWhile isspace (rev (dropWhile isspace s)))"

definition stripQuotes :: "string \<Rightarrow> string" where
  "stripQuotes s =
    (if length s \<ge> 2 \<and> hd s = CHR 0x22 \<and> last s = CHR 0x22 then butlast (tl s) else s)"

definition toUpper :: "string \<Rightarrow> string" where
  "toUpper s = map toupper s"

text \<open>
  \<^verbatim>\<open>splitCSVLine\<close>: the loop over the characters of the line, with its state
  \<open>inQuotes\<close>, \<open>field\<close> and \<open>fields\<close> (here \<open>flds\<close>); the last argument is the rest of the line
  from index \<open>i\<close> on. An escaped quote consumes two characters.
\<close>

fun splitCSV :: "bool \<Rightarrow> string \<Rightarrow> string list \<Rightarrow> string \<Rightarrow> string list" where
  "splitCSV inQuotes field flds [] = flds @ [field]"
| "splitCSV inQuotes field flds [c] =
    (if c = CHR 0x22 then splitCSV (\<not> inQuotes) field flds []
     else if c = CHR '','' \<and> \<not> inQuotes then splitCSV inQuotes [] (flds @ [field]) []
     else splitCSV inQuotes (field @ [c]) flds [])"
| "splitCSV inQuotes field flds (c # d # ds) =
    (if c = CHR 0x22 then
       (if inQuotes \<and> d = CHR 0x22 then splitCSV inQuotes (field @ [CHR 0x22]) flds ds
        else splitCSV (\<not> inQuotes) field flds (d # ds))
     else if c = CHR '','' \<and> \<not> inQuotes then splitCSV inQuotes [] (flds @ [field]) (d # ds)
     else splitCSV inQuotes (field @ [c]) flds (d # ds))"

definition splitCSVLine :: "string \<Rightarrow> string list" where
  "splitCSVLine line = splitCSV False [] [] line"

text \<open>\<^verbatim>\<open>splitPrereqTokens\<close> with its local function \<^verbatim>\<open>flush\<close>.\<close>

definition flush :: "string \<Rightarrow> string list \<Rightarrow> string list" where
  "flush token tokens = (let t = trim token in if t \<noteq> [] then tokens @ [t] else tokens)"

fun splitPrereq :: "string \<Rightarrow> string list \<Rightarrow> string \<Rightarrow> string list" where
  "splitPrereq token tokens [] = flush token tokens"
| "splitPrereq token tokens (c # cs) =
    (if isspace c \<or> c = CHR ''|'' \<or> c = CHR '';'' \<or> c = CHR '','' then
       splitPrereq [] (flush token tokens) cs
     else splitPrereq (token @ [c]) tokens cs)"

definition splitPrereqTokens :: "string \<Rightarrow> string list" where
  "splitPrereqTokens s = splitPrereq [] [] s"

section \<open>Parsing and loading\<close>

text \<open>
  \<^verbatim>\<open>parseCourseLine\<close>: the result \<^verbatim>\<open>false\<close> with its \<^verbatim>\<open>errMsg\<close> is \<open>Inl\<close>, the result
  \<^verbatim>\<open>true\<close> with its \<^verbatim>\<open>outCourse\<close> is \<open>Inr\<close>. \<^verbatim>\<open>std::sort\<close> followed by
  \<^verbatim>\<open>std::unique\<close> and \<^verbatim>\<open>erase\<close> is \<open>remdups_adj \<circ> sort\<close>.
\<close>

definition parseCourseLine :: "string \<Rightarrow> string + Course" where
  "parseCourseLine rawLine =
    (let line = (if rawLine \<noteq> [] \<and> last rawLine = CHR 0x0D then butlast rawLine else rawLine);
         t = trim line
     in if t = [] \<or> hd t = CHR ''#'' then Inl ''skip''
        else
          let flds = map (\<lambda>f. stripQuotes (trim f)) (splitCSVLine line)
          in if length flds < 2 \<or> flds ! 0 = [] \<or> flds ! 1 = [] then
               Inl ''Malformed line: requires course number and title.''
             else
               let prereqs = concat (map (\<lambda>f. if f \<noteq> [] then
                                 map toUpper (filter (\<lambda>tok. tok \<noteq> []) (splitPrereqTokens f))
                               else []) (drop 2 flds))
               in Inr \<lparr>number = toUpper (flds ! 0), title = flds ! 1,
                        prerequisites = remdups_adj (sort prereqs)\<rparr>)"

text \<open>
  The loop of \<^verbatim>\<open>loadCoursesFromFile\<close> over the lines read from the file: a line
  that does not parse is skipped, a parsed course is inserted under its number.
  The messages and counters are left out.
\<close>

fun loadLines :: "AVLNode \<Rightarrow> string list \<Rightarrow> AVLNode option" where
  "loadLines rootNode [] = Some rootNode"
| "loadLines rootNode (line # lines) =
    (case parseCourseLine line of
       Inl err \<Rightarrow> loadLines rootNode lines
     | Inr c \<Rightarrow>
         (case avlInsert rootNode (number c) c of
            None \<Rightarrow> None
          | Some rootNode' \<Rightarrow> loadLines rootNode' lines))"

section \<open>Printing\<close>

text \<open>\<^verbatim>\<open>printCourseInfo\<close>; the result is the text written to standard output.\<close>

definition prereqLine :: "AVLNode \<Rightarrow> string \<Rightarrow> string" where
  "prereqLine rootNode p =
    (case avlFind rootNode p of
       Node k pc h l r \<Rightarrow> ''  - '' @ p @ '' - '' @ title pc @ [CHR 0x0A]
     | Null \<Rightarrow> ''  - '' @ p @ '' - (title unknown)'' @ [CHR 0x0A])"

definition printCourseInfo :: "AVLNode \<Rightarrow> string \<Rightarrow> string" where
  "printCourseInfo rootNode courseNumberRaw =
    (if rootNode = Null then ''No courses loaded. Use Option 1 to load data first.'' @ [CHR 0x0A]
     else
       let key = toUpper (trim courseNumberRaw)
       in case avlFind rootNode key of
            Null \<Rightarrow> ''Course '' @ [CHR 0x27] @ key @ [CHR 0x27]
                @ '' was not found. Please check the course number and try again.'' @ [CHR 0x0A]
          | Node k c h l r \<Rightarrow>
              ''Course: '' @ number c @ '' - '' @ title c @ [CHR 0x0A]
              @ (if prerequisites c = [] then ''Prerequisites: None'' @ [CHR 0x0A]
                 else ''Prerequisites:'' @ [CHR 0x0A]
                      @ concat (map (prereqLine rootNode) (prerequisites c))))"

text \<open>The two records of the cross-reference scenario, with arbitrary titles.\<close>

definition entityX100 :: "string \<Rightarrow> Course" where
  "entityX100 t = \<lparr>number = ''X100'', title = t, prerequisites = []\<rparr>"

definition entityX200 :: "string \<Rightarrow> Course" where
  "entityX200 t = \<lparr>number = ''X200'', title = t, prerequisites = [''X100'', ''X999'']\<rparr>"

text \<open>
  A line whose first field is \<^verbatim>\<open>""" X1 """\<close>: a quoted field holding the text
  \<^verbatim>\<open>" X1 "\<close> with its quotes escaped.
\<close>

definition quotedSpacesLine :: string where
  "quotedSpacesLine =
     [CHR 0x22, CHR 0x22, CHR 0x22] @ '' X1 '' @ [CHR 0x22, CHR 0x22, CHR 0x22] @ '',T''"


section \<open>Fibonacci numbers\<close>

text \<open>The Fibonacci numbers and the golden ratio, for the height bound.\<close>

fun fib :: "nat \<Rightarrow> nat" where
  "fib 0 = 0"
| "fib (Suc 0) = 1"
| "fib (Suc (Suc n)) = fib (Suc n) + fib n"

definition goldenRatio :: real where
  "goldenRatio = (1 + sqrt 5) / 2"


section \<open>Reaching a given tree by inserts\<close>

text \<open>
  The tree \<open>t\<close> cut below depth \<open>d\<close>, with the heights of what is left; the
  nodes of \<open>t\<close> at depth \<open>d\<close>, from left to right; the nodes of \<open>t\<close> level by
  level.
\<close>

fun cutAt :: "nat \<Rightarrow> AVLNode \<Rightarrow> AVLNode" where
  "cutAt 0 t = Null"
| "cutAt (Suc d) Null = Null"
| "cutAt (Suc d) (Node k v h l r) =
     Node k v (1 + max (nodeHeight (cutAt d l)) (nodeHeight (cutAt d r))) (cutAt d l) (cutAt d r)"

fun levelNodes :: "nat \<Rightarrow> AVLNode \<Rightarrow> (string \<times> Course) list" where
  "levelNodes d Null = []"
| "levelNodes 0 (Node k v h l r) = [(k, v)]"
| "levelNodes (Suc d) (Node k v h l r) = levelNodes d l @ levelNodes d r"

definition levelOrder :: "AVLNode \<Rightarrow> (string \<times> Course) list" where
  "levelOrder t = concat (map (\<lambda>d. levelNodes d t) [0..<nat (nodeHeight t)])"

text \<open>
  The inserts \<open>xs\<close> take \<open>s\<close> to \<open>s'\<close>, and every tree on the way has a height
  between \<open>lo\<close> and \<open>hi\<close>.
\<close>

fun quietInserts :: "int \<Rightarrow> int \<Rightarrow> AVLNode \<Rightarrow> (string \<times> Course) list \<Rightarrow> AVLNode \<Rightarrow> bool" where
  "quietInserts lo hi s [] s' = (s' = s)"
| "quietInserts lo hi s ((x, v) # xs) s' =
    (case avlInsert s x v of
       None \<Rightarrow> False
     | Some s1 \<Rightarrow> lo \<le> nodeHeight s1 \<and> nodeHeight s1 \<le> hi \<and> quietInserts lo hi s1 xs s')"

text \<open>
  The AVL trees of height \<open>h\<close> with the fewest nodes (\<open>minNodes h\<close> of them),
  over the keys \<open>unaryKey lo\<close>, \<open>unaryKey (lo + 1)\<close>, ...; \<open>unaryKey n\<close> is the letter
  \<open>A\<close> written \<open>n\<close> times, so that the keys are ordered as their numbers.
\<close>

definition unaryKey :: "nat \<Rightarrow> string" where
  "unaryKey n = replicate n (CHR ''A'')"

fun minNodes :: "nat \<Rightarrow> nat" where
  "minNodes 0 = 0"
| "minNodes (Suc 0) = 1"
| "minNodes (Suc (Suc h)) = minNodes (Suc h) + minNodes h + 1"

fun fibTree :: "nat \<Rightarrow> nat \<Rightarrow> AVLNode" where
  "fibTree 0 lo = Null"
| "fibTree (Suc 0) lo = Node (unaryKey lo) (course (unaryKey lo)) 1 Null Null"
| "fibTree (Suc (Suc h)) lo =
     Node (unaryKey (lo + minNodes (Suc h))) (course (unaryKey (lo + minNodes (Suc h))))
       (int h + 2) (fibTree (Suc h) lo) (fibTree h (lo + minNodes (Suc h) + 1))"

text \<open>
  The records of the smallest AVL tree of height 13 over the keys \<open>A\<close>, \<open>AA\<close>,
  ... (up to 609 letters), level by level: 609 records.
\<close>

definition fibInserts13 :: "(string \<times> Course) list" where
  "fibInserts13 = levelOrder (fibTree 13 1)"


text \<open>Tokens that are not empty and hold no white space.\<close>

definition cleanTokens :: "string list \<Rightarrow> bool" where
  "cleanTokens ts = (\<forall>t\<in>set ts. t \<noteq> [] \<and> (\<forall>c\<in>set t. \<not> isspace c))"


section \<open>Basic facts\<close>

lemma nodeHeight_nonneg: "heightCorrect t \<Longrightarrow> 0 \<le> nodeHeight t"
  by (induction t) auto

lemma nodeHeight_pos: "heightCorrect (Node k v h l r) \<Longrightarrow> 1 \<le> h"
  using nodeHeight_nonneg[of l] nodeHeight_nonneg[of r] by auto

lemma nodeHeight_zero: "heightCorrect t \<Longrightarrow> nodeHeight t \<le> 0 \<Longrightarrow> t = Null"
  using nodeHeight_pos[of _ _ "nodeHeight t"] by (cases t) auto

lemma bstOrder_sorted: "bstOrder t = sorted_wrt (<) (keysOf t)"
  by (induction t) (force simp: keysOf_def sorted_wrt_append list_all_iff)+

lemma rebalance_NoRotation:
  assumes "\<bar>nodeHeight l - nodeHeight r\<bar> \<le> 1"
  shows "rebalance k v h l r key = Some (NoRotation, Node k v (1 + max (nodeHeight l) (nodeHeight r)) l r)"
proof -
  have "\<not> 1 < nodeHeight l - nodeHeight r" and "\<not> nodeHeight l - nodeHeight r < - 1"
    using assms by arith+
  then show ?thesis
    by (simp add: rebalance_def andAlso_def Let_def)
qed

lemma rebalance_LeftLeft:
  "1 < hl - nodeHeight r \<Longrightarrow> key < kl \<Longrightarrow>
   rebalance k v h (Node kl vl hl ll lr) r key =
     Some (LeftLeft,
       Node kl vl (1 + max (nodeHeight ll) (1 + max (nodeHeight lr) (nodeHeight r))) ll
         (Node k v (1 + max (nodeHeight lr) (nodeHeight r)) lr r))"
  by (simp add: rebalance_def andAlso_def Let_def)

lemma rebalance_LeftRight:
  "1 < hl - nodeHeight r \<Longrightarrow> kl < key \<Longrightarrow> \<not> key < kl \<Longrightarrow>
   rebalance k v h (Node kl vl hl ll (Node km vm hm ml mr)) r key =
     Some (LeftRight,
       Node km vm (1 + max (1 + max (nodeHeight ll) (nodeHeight ml))
                          (1 + max (nodeHeight mr) (nodeHeight r)))
         (Node kl vl (1 + max (nodeHeight ll) (nodeHeight ml)) ll ml)
         (Node k v (1 + max (nodeHeight mr) (nodeHeight r)) mr r))"
  by (simp add: rebalance_def andAlso_def Let_def)

lemma rebalance_RightRight:
  "nodeHeight l - hr < - 1 \<Longrightarrow> kr < key \<Longrightarrow>
   rebalance k v h l (Node kr vr hr rl rr) key =
     Some (RightRight,
       Node kr vr (1 + max (1 + max (nodeHeight l) (nodeHeight rl)) (nodeHeight rr))
         (Node k v (1 + max (nodeHeight l) (nodeHeight rl)) l rl) rr)"
  by (simp add: rebalance_def andAlso_def Let_def)

lemma rebalance_RightLeft:
  "nodeHeight l - hr < - 1 \<Longrightarrow> key < kr \<Longrightarrow> \<not> kr < key \<Longrightarrow>
   rebalance k v h l (Node kr vr hr (Node km vm hm ml mr) rr) key =
     Some (RightLeft,
       Node km vm (1 + max (1 + max (nodeHeight l) (nodeHeight ml))
                          (1 + max (nodeHeight mr) (nodeHeight rr)))
         (Node k v (1 + max (nodeHeight l) (nodeHeight ml)) l ml)
         (Node kr vr (1 + max (nodeHeight mr) (nodeHeight rr)) mr rr))"
  by (simp add: rebalance_def andAlso_def Let_def)


lemma rebalance_left_step:
  assumes l': "heightCorrect l'" "avlBalanced l'" and r: "heightCorrect r" "avlBalanced r"
    and old: "\<bar>hl - nodeHeight r\<bar> \<le> 1"
    and grow: "nodeHeight l' = hl \<or> nodeHeight l' = hl + 1 \<and> leansToward l' key"
    and lt: "key < k"
  shows "\<exists>c t'. rebalance k v h l' r key = Some (c, t') \<and> heightCorrect t' \<and> avlBalanced t'
           \<and> (nodeHeight t' = 1 + max hl (nodeHeight r)
                \<or> nodeHeight t' = 2 + max hl (nodeHeight r) \<and> leansToward t' key)
           \<and> (c = NoRotation \<longleftrightarrow> \<bar>nodeHeight l' - nodeHeight r\<bar> \<le> 1)
           \<and> (1 < \<bar>nodeHeight l' - nodeHeight r\<bar> \<longrightarrow> keyOf l' \<noteq> Some key)"
proof (cases "\<bar>nodeHeight l' - nodeHeight r\<bar> \<le> 1")
  case True
  have "rebalance k v h l' r key = Some (NoRotation, Node k v (1 + max (nodeHeight l') (nodeHeight r)) l' r)"
    using True by (rule rebalance_NoRotation)
  moreover have "heightCorrect (Node k v (1 + max (nodeHeight l') (nodeHeight r)) l' r)"
    using l' r by simp
  moreover have "avlBalanced (Node k v (1 + max (nodeHeight l') (nodeHeight r)) l' r)"
    using l' r True by simp
  moreover have "1 + max (nodeHeight l') (nodeHeight r) = 1 + max hl (nodeHeight r)
      \<or> 1 + max (nodeHeight l') (nodeHeight r) = 2 + max hl (nodeHeight r)
         \<and> nodeHeight l' = nodeHeight r + 1"
    using grow old True by arith
  ultimately show ?thesis using lt True by auto
next
  case False
  have hr: "0 \<le> nodeHeight r" using r nodeHeight_nonneg by simp
  have big: "nodeHeight l' = nodeHeight r + 2" and hl: "hl = nodeHeight r + 1"
    and lean: "leansToward l' key"
    using False grow old by auto
  obtain kl vl h' ll lr where l'_eq: "l' = Node kl vl h' ll lr"
    using big hr by (cases l') auto
  have h': "h' = nodeHeight r + 2" using big l'_eq by simp
  have hc: "h' = 1 + max (nodeHeight ll) (nodeHeight lr)" "heightCorrect ll" "heightCorrect lr"
    and bal: "\<bar>nodeHeight ll - nodeHeight lr\<bar> \<le> 1" "avlBalanced ll" "avlBalanced lr"
    using l' l'_eq by auto
  have neq: "key \<noteq> kl" using lean l'_eq h' hr by auto
  show ?thesis
  proof (cases "key < kl")
    case True
    have hs: "nodeHeight ll = nodeHeight r + 1" "nodeHeight lr = nodeHeight r"
      using lean l'_eq True hc h' by auto
    have "rebalance k v h l' r key = Some (LeftLeft,
       Node kl vl (1 + max (nodeHeight ll) (1 + max (nodeHeight lr) (nodeHeight r))) ll
         (Node k v (1 + max (nodeHeight lr) (nodeHeight r)) lr r))"
      unfolding l'_eq using h' True by (intro rebalance_LeftLeft) auto
    then show ?thesis
      using hs hc bal r hl False neq l'_eq by auto
  next
    case F2: False
    then have gt: "kl < key" using neq by auto
    have hs: "nodeHeight lr = nodeHeight r + 1" "nodeHeight ll = nodeHeight r"
      using lean l'_eq F2 gt hc h' by auto
    obtain km vm hm ml mr where lr_eq: "lr = Node km vm hm ml mr"
      using hs hr by (cases lr) auto
    have m: "hm = 1 + max (nodeHeight ml) (nodeHeight mr)" "heightCorrect ml" "heightCorrect mr"
       "\<bar>nodeHeight ml - nodeHeight mr\<bar> \<le> 1" "avlBalanced ml" "avlBalanced mr"
      using hc bal lr_eq by auto
    have hm: "hm = nodeHeight r + 1" using hs lr_eq by simp
    have "rebalance k v h l' r key = Some (LeftRight,
       Node km vm (1 + max (1 + max (nodeHeight ll) (nodeHeight ml))
                          (1 + max (nodeHeight mr) (nodeHeight r)))
         (Node kl vl (1 + max (nodeHeight ll) (nodeHeight ml)) ll ml)
         (Node k v (1 + max (nodeHeight mr) (nodeHeight r)) mr r))"
      unfolding l'_eq lr_eq using h' gt F2 by (intro rebalance_LeftRight) auto
    then show ?thesis
      using hs hc bal r hl False neq l'_eq m hm by auto
  qed
qed


lemma rebalance_right_step:
  assumes l: "heightCorrect l" "avlBalanced l" and r': "heightCorrect r'" "avlBalanced r'"
    and old: "\<bar>nodeHeight l - hr\<bar> \<le> 1"
    and grow: "nodeHeight r' = hr \<or> nodeHeight r' = hr + 1 \<and> leansToward r' key"
    and gt: "k < key"
  shows "\<exists>c t'. rebalance k v h l r' key = Some (c, t') \<and> heightCorrect t' \<and> avlBalanced t'
           \<and> (nodeHeight t' = 1 + max (nodeHeight l) hr
                \<or> nodeHeight t' = 2 + max (nodeHeight l) hr \<and> leansToward t' key)
           \<and> (c = NoRotation \<longleftrightarrow> \<bar>nodeHeight l - nodeHeight r'\<bar> \<le> 1)
           \<and> (1 < \<bar>nodeHeight l - nodeHeight r'\<bar> \<longrightarrow> keyOf r' \<noteq> Some key)"
proof (cases "\<bar>nodeHeight l - nodeHeight r'\<bar> \<le> 1")
  case True
  have nlt: "\<not> key < k" using gt by auto
  have "rebalance k v h l r' key = Some (NoRotation, Node k v (1 + max (nodeHeight l) (nodeHeight r')) l r')"
    using True by (rule rebalance_NoRotation)
  moreover have "heightCorrect (Node k v (1 + max (nodeHeight l) (nodeHeight r')) l r')"
    using l r' by simp
  moreover have "avlBalanced (Node k v (1 + max (nodeHeight l) (nodeHeight r')) l r')"
    using l r' True by simp
  moreover have "1 + max (nodeHeight l) (nodeHeight r') = 1 + max (nodeHeight l) hr
      \<or> 1 + max (nodeHeight l) (nodeHeight r') = 2 + max (nodeHeight l) hr
         \<and> nodeHeight r' = nodeHeight l + 1"
    using grow old True by arith
  ultimately show ?thesis using gt nlt True by auto
next
  case False
  have hl: "0 \<le> nodeHeight l" using l nodeHeight_nonneg by simp
  have big: "nodeHeight r' = nodeHeight l + 2" and hr: "hr = nodeHeight l + 1"
    and lean: "leansToward r' key"
    using False grow old by auto
  obtain kr vr h' rl rr where r'_eq: "r' = Node kr vr h' rl rr"
    using big hl by (cases r') auto
  have h': "h' = nodeHeight l + 2" using big r'_eq by simp
  have hc: "h' = 1 + max (nodeHeight rl) (nodeHeight rr)" "heightCorrect rl" "heightCorrect rr"
    and bal: "\<bar>nodeHeight rl - nodeHeight rr\<bar> \<le> 1" "avlBalanced rl" "avlBalanced rr"
    using r' r'_eq by auto
  have neq: "key \<noteq> kr" using lean r'_eq h' hl by auto
  show ?thesis
  proof (cases "kr < key")
    case True
    then have nlt: "\<not> key < kr" by auto
    have hs: "nodeHeight rr = nodeHeight l + 1" "nodeHeight rl = nodeHeight l"
      using lean r'_eq True nlt hc h' by auto
    have "rebalance k v h l r' key = Some (RightRight,
       Node kr vr (1 + max (1 + max (nodeHeight l) (nodeHeight rl)) (nodeHeight rr))
         (Node k v (1 + max (nodeHeight l) (nodeHeight rl)) l rl) rr)"
      unfolding r'_eq using h' True by (intro rebalance_RightRight) auto
    then show ?thesis
      using hs hc bal l hr False neq r'_eq True nlt by auto
  next
    case F2: False
    then have lt: "key < kr" using neq by auto
    have hs: "nodeHeight rl = nodeHeight l + 1" "nodeHeight rr = nodeHeight l"
      using lean r'_eq F2 lt hc h' by auto
    obtain km vm hm ml mr where rl_eq: "rl = Node km vm hm ml mr"
      using hs hl by (cases rl) auto
    have m: "hm = 1 + max (nodeHeight ml) (nodeHeight mr)" "heightCorrect ml" "heightCorrect mr"
       "\<bar>nodeHeight ml - nodeHeight mr\<bar> \<le> 1" "avlBalanced ml" "avlBalanced mr"
      using hc bal rl_eq by auto
    have hm: "hm = nodeHeight l + 1" using hs rl_eq by simp
    have "rebalance k v h l r' key = Some (RightLeft,
       Node km vm (1 + max (1 + max (nodeHeight l) (nodeHeight ml))
                          (1 + max (nodeHeight mr) (nodeHeight rr)))
         (Node k v (1 + max (nodeHeight l) (nodeHeight ml)) l ml)
         (Node kr vr (1 + max (nodeHeight mr) (nodeHeight rr)) mr rr))"
      unfolding r'_eq rl_eq using h' lt F2 by (intro rebalance_RightLeft) auto
    then show ?thesis
      using hs hc bal l hr False neq r'_eq m hm by auto
  qed
qed

lemma avlInsert_balance:
  "heightCorrect t \<Longrightarrow> avlBalanced t \<Longrightarrow>
   \<exists>t'. avlInsert t key val = Some t' \<and> heightCorrect t' \<and> avlBalanced t'
     \<and> (nodeHeight t' = nodeHeight t \<or> nodeHeight t' = nodeHeight t + 1 \<and> leansToward t' key)"
proof (induction t)
  case Null
  show ?case by simp
next
  case (Node k v h l r)
  have l: "heightCorrect l" "avlBalanced l" and r: "heightCorrect r" "avlBalanced r"
    and h: "h = 1 + max (nodeHeight l) (nodeHeight r)"
    and old: "\<bar>nodeHeight l - nodeHeight r\<bar> \<le> 1"
    using Node.prems by auto
  consider (lt) "key < k" | (gt) "k < key" | (eq) "key = k"
    by (cases key k rule: linorder_cases) auto
  then show ?case
  proof cases
    case lt
    obtain l' where l': "avlInsert l key val = Some l'" "heightCorrect l'" "avlBalanced l'"
      "nodeHeight l' = nodeHeight l \<or> nodeHeight l' = nodeHeight l + 1 \<and> leansToward l' key"
      using Node.IH(1)[OF l] by blast
    obtain c t' where "rebalance k v h l' r key = Some (c, t')" "heightCorrect t'" "avlBalanced t'"
      "nodeHeight t' = 1 + max (nodeHeight l) (nodeHeight r)
        \<or> nodeHeight t' = 2 + max (nodeHeight l) (nodeHeight r) \<and> leansToward t' key"
      using rebalance_left_step[OF l'(2,3) r old l'(4) lt, of v h] by blast
    then show ?thesis using lt l'(1) h by auto
  next
    case gt
    then have nlt: "\<not> key < k" by auto
    obtain r' where r': "avlInsert r key val = Some r'" "heightCorrect r'" "avlBalanced r'"
      "nodeHeight r' = nodeHeight r \<or> nodeHeight r' = nodeHeight r + 1 \<and> leansToward r' key"
      using Node.IH(2)[OF r] by blast
    obtain c t' where "rebalance k v h l r' key = Some (c, t')" "heightCorrect t'" "avlBalanced t'"
      "nodeHeight t' = 1 + max (nodeHeight l) (nodeHeight r)
        \<or> nodeHeight t' = 2 + max (nodeHeight l) (nodeHeight r) \<and> leansToward t' key"
      using rebalance_right_step[OF l r'(2,3) old r'(4) gt, of v h] by blast
    then show ?thesis using gt nlt r'(1) h by auto
  next
    case eq
    then show ?thesis using Node.prems by simp
  qed
qed

lemma keysOf_simps [simp]:
  "keysOf Null = []" "keysOf (Node k v h l r) = keysOf l @ k # keysOf r"
  by (simp_all add: keysOf_def)

lemma rotateRight_inorder: "rotateRight t = Some t' \<Longrightarrow> inOrderNodes t' = inOrderNodes t"
  by (induction t rule: rotateRight.induct) auto

lemma rotateLeft_inorder: "rotateLeft t = Some t' \<Longrightarrow> inOrderNodes t' = inOrderNodes t"
  by (induction t rule: rotateLeft.induct) auto

lemma rebalance_inorder:
  "rebalance k v h l r key = Some (c, t') \<Longrightarrow>
   inOrderNodes t' = inOrderNodes l @ (k, v) # inOrderNodes r"
  by (auto simp: rebalance_def Let_def split: option.splits bool.splits
      dest!: rotateRight_inorder rotateLeft_inorder)

lemma map_upd_under_add:
  "ml key = None \<Longrightarrow> key \<noteq> k \<Longrightarrow>
   (mr(key \<mapsto> val))(k \<mapsto> v) ++ ml = ((mr(k \<mapsto> v)) ++ ml)(key \<mapsto> (val::'b))"
  by (rule ext) (simp add: map_add_def split: option.splits)

lemma map_overwrite_under_add:
  "ml k = None \<Longrightarrow> mr(k \<mapsto> val) ++ ml = ((mr(k \<mapsto> v)) ++ ml)(k \<mapsto> (val::'b))"
  by (rule ext) (simp add: map_add_def split: option.splits)

lemma avlInsert_inorder:
  "avlInsert t key val = Some t' \<Longrightarrow> bstOrder t \<Longrightarrow>
   bstOrder t' \<and> set (keysOf t') = insert key (set (keysOf t))
     \<and> map_of (inOrderNodes t') = (map_of (inOrderNodes t))(key \<mapsto> val)"
proof (induction t arbitrary: t')
  case Null
  then show ?case by auto
next
  case (Node k v h l r)
  have bl: "bstOrder l" and br: "bstOrder r"
    and kl: "\<forall>x\<in>set (keysOf l). x < k" and kr: "\<forall>x\<in>set (keysOf r). k < x"
    using Node.prems(2) by (auto simp: list_all_iff)
  consider (lt) "key < k" | (gt) "k < key" | (eq) "key = k"
    by (cases key k rule: linorder_cases) auto
  then show ?case
  proof cases
    case lt
    then obtain l' c where l': "avlInsert l key val = Some l'"
      and rb: "rebalance k v h l' r key = Some (c, t')"
      using Node.prems(1) by (auto split: option.splits)
    note ih = Node.IH(1)[OF l' bl]
    have io: "inOrderNodes t' = inOrderNodes l' @ (k, v) # inOrderNodes r"
      using rb by (rule rebalance_inorder)
    then have ks: "keysOf t' = keysOf l' @ k # keysOf r" by (simp add: keysOf_def)
    have "sorted_wrt (<) (keysOf t')"
      unfolding ks using ih bl br kl kr lt
      by (fastforce simp: bstOrder_sorted sorted_wrt_append)
    moreover have "set (keysOf t') = insert key (set (keysOf (Node k v h l r)))"
      unfolding ks using ih by auto
    moreover have "map_of (inOrderNodes t') = (map_of (inOrderNodes (Node k v h l r)))(key \<mapsto> val)"
      unfolding io using ih by (simp del: fun_upd_apply)
    ultimately show ?thesis by (simp add: bstOrder_sorted)
  next
    case gt
    then have nlt: "\<not> key < k" by auto
    then obtain r' c where r': "avlInsert r key val = Some r'"
      and rb: "rebalance k v h l r' key = Some (c, t')"
      using Node.prems(1) gt by (auto split: option.splits)
    note ih = Node.IH(2)[OF r' br]
    have io: "inOrderNodes t' = inOrderNodes l @ (k, v) # inOrderNodes r'"
      using rb by (rule rebalance_inorder)
    then have ks: "keysOf t' = keysOf l @ k # keysOf r'" by (simp add: keysOf_def)
    have "sorted_wrt (<) (keysOf t')"
      unfolding ks using ih bl br kl kr gt
      by (fastforce simp: bstOrder_sorted sorted_wrt_append)
    moreover have "set (keysOf t') = insert key (set (keysOf (Node k v h l r)))"
      unfolding ks using ih by auto
    moreover have "key \<notin> fst ` set (inOrderNodes l)"
      using kl gt by (auto simp: keysOf_def)
    then have "map_of (inOrderNodes l) key = None"
      by (simp add: map_of_eq_None_iff)
    then have "map_of (inOrderNodes t') = (map_of (inOrderNodes (Node k v h l r)))(key \<mapsto> val)"
      unfolding io using ih gt
      by (simp add: map_upd_under_add del: fun_upd_apply)
    ultimately show ?thesis by (simp add: bstOrder_sorted)
  next
    case eq
    then have t': "t' = Node k val h l r" using Node.prems(1) by simp
    have "k \<notin> fst ` set (inOrderNodes l)"
      using kl by (auto simp: keysOf_def)
    then have "map_of (inOrderNodes l) k = None"
      by (simp add: map_of_eq_None_iff)
    then have "map_of (inOrderNodes l @ (k, val) # inOrderNodes r)
        = (map_of (inOrderNodes l @ (k, v) # inOrderNodes r))(k \<mapsto> val)"
      by (simp add: map_overwrite_under_add del: fun_upd_apply)
    then show ?thesis using Node.prems(2) eq t' by (simp del: fun_upd_apply)
  qed
qed

lemma avlInsertLog_tree: "map_option fst (avlInsertLog t key val) = avlInsert t key val"
  by (induction t) (auto simp: option.map_comp comp_def case_prod_unfold split: option.splits)

lemma avlInsert_invariant:
  assumes "avlInvariant t"
  shows "\<exists>t'. avlInsert t key val = Some t' \<and> avlInvariant t'
     \<and> set (keysOf t') = insert key (set (keysOf t))
     \<and> map_of (inOrderNodes t') = (map_of (inOrderNodes t))(key \<mapsto> val)"
proof -
  obtain t' where t': "avlInsert t key val = Some t'" "heightCorrect t'" "avlBalanced t'"
    using avlInsert_balance[of t key val] assms by (auto simp: avlInvariant_def)
  moreover have "bstOrder t" using assms by (simp add: avlInvariant_def)
  ultimately show ?thesis
    using avlInsert_inorder[OF t'(1)] by (simp add: avlInvariant_def del: fun_upd_apply)
qed

lemma map_add_upd_shift:
  "(m(key \<mapsto> val)) ++ map_of (rev kvs) = m ++ map_of (rev ((key, val) # kvs))"
  by (rule ext) (simp add: map_add_def split: option.splits)

lemma insertAll_invariant:
  "avlInvariant t \<Longrightarrow>
   \<exists>t'. insertAll t kvs = Some t' \<and> avlInvariant t'
     \<and> set (keysOf t') = set (keysOf t) \<union> fst ` set kvs
     \<and> map_of (inOrderNodes t') = map_of (inOrderNodes t) ++ map_of (rev kvs)"
proof (induction kvs arbitrary: t)
  case Nil
  then show ?case by simp
next
  case (Cons kv kvs)
  obtain key val where kv: "kv = (key, val)" by (cases kv)
  obtain t1 where t1: "avlInsert t key val = Some t1" "avlInvariant t1"
     "set (keysOf t1) = insert key (set (keysOf t))"
     "map_of (inOrderNodes t1) = (map_of (inOrderNodes t))(key \<mapsto> val)"
    using avlInsert_invariant[OF Cons.prems] by blast
  obtain t' where t': "insertAll t1 kvs = Some t'" "avlInvariant t'"
     "set (keysOf t') = set (keysOf t1) \<union> fst ` set kvs"
     "map_of (inOrderNodes t') = map_of (inOrderNodes t1) ++ map_of (rev kvs)"
    using Cons.IH[OF t1(2)] by blast
  have m: "map_of (inOrderNodes t') = map_of (inOrderNodes t) ++ map_of (rev (kv # kvs))"
    unfolding t'(4) t1(4) kv by (rule map_add_upd_shift)
  have i: "insertAll t (kv # kvs) = Some t'"
    using t1(1) t'(1) kv by simp
  have s: "set (keysOf t') = set (keysOf t) \<union> fst ` set (kv # kvs)"
    unfolding t'(3) t1(3) kv by auto
  show ?case using i s m t'(2) by blast
qed

lemma avlInvariant_Null: "avlInvariant Null"
  by (simp add: avlInvariant_def)

lemma avlFind_map_of:
  "bstOrder t \<Longrightarrow>
   (case map_of (inOrderNodes t) key of
      None \<Rightarrow> avlFind t key = Null
    | Some v \<Rightarrow> (\<exists>h l r. avlFind t key = Node key v h l r))"
proof (induction t)
  case Null
  show ?case by simp
next
  case (Node k v h l r)
  have bl: "bstOrder l" and br: "bstOrder r"
    and kl: "\<forall>x\<in>set (keysOf l). x < k" and kr: "\<forall>x\<in>set (keysOf r). k < x"
    using Node.prems by (auto simp: list_all_iff)
  consider (lt) "key < k" | (gt) "k < key" | (eq) "key = k"
    by (cases key k rule: linorder_cases) auto
  then show ?case
  proof cases
    case lt
    have "key \<notin> fst ` set (inOrderNodes r)" using kr lt by (auto simp: keysOf_def)
    then have "map_of (inOrderNodes r) key = None" by (simp add: map_of_eq_None_iff)
    then have "map_of (inOrderNodes (Node k v h l r)) key = map_of (inOrderNodes l) key"
      using lt by (simp add: map_add_def split: option.splits)
    then show ?thesis using Node.IH(1)[OF bl] lt by (auto split: option.splits)
  next
    case gt
    have "key \<notin> fst ` set (inOrderNodes l)" using kl gt by (auto simp: keysOf_def)
    then have "map_of (inOrderNodes l) key = None" by (simp add: map_of_eq_None_iff)
    moreover have ne: "key \<noteq> k" "\<not> key < k" using gt by auto
    ultimately have "map_of (inOrderNodes (Node k v h l r)) key = map_of (inOrderNodes r) key"
      by (simp add: map_add_def split: option.splits)
    then show ?thesis using Node.IH(2)[OF br] gt ne by (auto split: option.splits)
  next
    case eq
    have "k \<notin> fst ` set (inOrderNodes l)" using kl by (auto simp: keysOf_def)
    then have "map_of (inOrderNodes l) k = None" by (simp add: map_of_eq_None_iff)
    then show ?thesis using eq by (simp add: map_add_def)
  qed
qed

lemma avlInOrder_lines: "avlInOrder t = concat (map courseLine (inOrderNodes t))"
  by (induction t) (simp_all add: courseLine_def)

section \<open>Invariant preservation\<close>

text \<open>
  C1. For every sequence of inserts \<open>kvs\<close> into the empty tree and every \<open>n\<close>,
  the first \<open>n\<close> inserts return a tree (no fault), and that tree satisfies BST
  order, height correctness and AVL balance at every node.
\<close>

theorem insert_sequence_invariants:
  "\<exists>t. insertAll Null (take n kvs) = Some t \<and> bstOrder t \<and> heightCorrect t \<and> avlBalanced t"
  using insertAll_invariant[OF avlInvariant_Null, of "take n kvs"]
  by (auto simp: avlInvariant_def)

theorem insert_sequence_invariants_witness:
  "\<exists>t. insertAll Null (take 3 [(''C'', course ''C''), (''B'', course ''B''), (''A'', course ''A''),
          (''D'', course ''D'')]) = Some t
     \<and> t = Node ''B'' (course ''B'') 2 (Node ''A'' (course ''A'') 1 Null Null)
              (Node ''C'' (course ''C'') 1 Null Null)
     \<and> bstOrder t \<and> heightCorrect t \<and> avlBalanced t"
  using insert_sequence_invariants[of 3 "[(''C'', course ''C''), (''B'', course ''B''),
     (''A'', course ''A''), (''D'', course ''D'')]"]
  by (simp add: rebalance_def andAlso_def)

text \<open>
  C7. \<open>avlInsert\<close> returns a tree, for every key (the empty string included) and
  every tree that satisfies the invariants: no rotation dereferences a null
  child, and the result satisfies invariants 1 to 3.
\<close>

theorem avlInsert_total:
  assumes "bstOrder t" and "heightCorrect t" and "avlBalanced t"
  shows "\<exists>t'. avlInsert t key val = Some t' \<and> bstOrder t' \<and> heightCorrect t' \<and> avlBalanced t'"
  using avlInsert_invariant[of t key val] assms by (auto simp: avlInvariant_def)

theorem avlInsert_total_witness:
  "bstOrder (Node ''B'' (course ''B'') 2 (Node ''A'' (course ''A'') 1 Null Null) Null)
   \<and> heightCorrect (Node ''B'' (course ''B'') 2 (Node ''A'' (course ''A'') 1 Null Null) Null)
   \<and> avlBalanced (Node ''B'' (course ''B'') 2 (Node ''A'' (course ''A'') 1 Null Null) Null)
   \<and> (\<exists>t'. avlInsert (Node ''B'' (course ''B'') 2 (Node ''A'' (course ''A'') 1 Null Null) Null)
              [] (course []) = Some t'
         \<and> t' = Node ''A'' (course ''A'') 2 (Node [] (course []) 1 Null Null)
                  (Node ''B'' (course ''B'') 1 Null Null)
         \<and> bstOrder t' \<and> heightCorrect t' \<and> avlBalanced t')"
  using avlInsert_total[of "Node ''B'' (course ''B'') 2 (Node ''A'' (course ''A'') 1 Null Null) Null"
     "[]" "course []"]
  by (simp add: rebalance_def andAlso_def)

section \<open>Lookup\<close>

lemma map_of_rev_absent:
  "key \<notin> fst ` set kvs \<Longrightarrow> map_of (rev kvs) key = None"
  by (simp add: map_of_eq_None_iff)

lemma map_of_rev_last:
  "key \<notin> fst ` set post \<Longrightarrow> map_of (rev (pre @ (key, v) # post)) key = Some v"
  using map_of_rev_absent[of key post] by (simp add: map_add_def)

text \<open>
  C2. After any sequence of inserts into the empty tree: a key that was never
  inserted is looked up with the result \<open>Null\<close> (the null pointer, no fault);
  a key whose most recent insert supplied \<open>v\<close> is looked up with the result a
  node with that key and the value \<open>v\<close>.
\<close>

theorem avlFind_after_inserts:
  "\<exists>t. insertAll Null kvs = Some t
     \<and> (key \<notin> fst ` set kvs \<longrightarrow> avlFind t key = Null)
     \<and> (\<forall>pre v post. kvs = pre @ (key, v) # post \<and> key \<notin> fst ` set post
           \<longrightarrow> (\<exists>h l r. avlFind t key = Node key v h l r))"
proof -
  obtain t where t: "insertAll Null kvs = Some t" "avlInvariant t"
    "map_of (inOrderNodes t) = map_of (inOrderNodes Null) ++ map_of (rev kvs)"
    using insertAll_invariant[OF avlInvariant_Null, of kvs] by blast
  have m: "map_of (inOrderNodes t) = map_of (rev kvs)" using t(3) by simp
  have f: "case map_of (rev kvs) key of None \<Rightarrow> avlFind t key = Null
           | Some v \<Rightarrow> (\<exists>h l r. avlFind t key = Node key v h l r)"
    using avlFind_map_of[of t key] t(2) m by (simp add: avlInvariant_def)
  have a: "key \<notin> fst ` set kvs \<longrightarrow> avlFind t key = Null"
    using f map_of_rev_absent[of key kvs] by auto
  have b: "\<forall>pre v post. kvs = pre @ (key, v) # post \<and> key \<notin> fst ` set post
           \<longrightarrow> (\<exists>h l r. avlFind t key = Node key v h l r)"
  proof (intro allI impI)
    fix pre v post
    assume "kvs = pre @ (key, v) # post \<and> key \<notin> fst ` set post"
    then have "map_of (rev kvs) key = Some v" using map_of_rev_last by metis
    then show "\<exists>h l r. avlFind t key = Node key v h l r" using f by simp
  qed
  show ?thesis using t(1) a b by blast
qed

theorem avlFind_after_inserts_witness:
  "\<exists>t. insertAll Null [(''B'', course ''B''), (''A'', course ''A''), (''B'', course ''X'')] = Some t
     \<and> avlFind t ''C'' = Null
     \<and> avlFind t ''B'' = Node ''B'' (course ''X'') 2 (Node ''A'' (course ''A'') 1 Null Null) Null"
  using avlFind_after_inserts[of "[(''B'', course ''B''), (''A'', course ''A''), (''B'', course ''X'')]" "''B''"]
  by (simp add: rebalance_def andAlso_def)

section \<open>Traversal\<close>

lemma length_inOrderNodes: "length (inOrderNodes t) = nodeCount t"
  by (induction t) simp_all

text \<open>
  C4. After any sequence of inserts into the empty tree, the in-order
  traversal prints one line per visited node, visits as many nodes as the tree
  has, in strictly ascending order of the keys, each key once, the keys being
  exactly those inserted, and each with the value of its most recent insert.
\<close>

theorem avlInOrder_after_inserts:
  "\<exists>t. insertAll Null kvs = Some t
     \<and> avlInOrder t = concat (map courseLine (inOrderNodes t))
     \<and> length (inOrderNodes t) = nodeCount t
     \<and> sorted_wrt (<) (keysOf t) \<and> distinct (keysOf t)
     \<and> set (keysOf t) = fst ` set kvs
     \<and> map_of (inOrderNodes t) = map_of (rev kvs)"
proof -
  obtain t where t: "insertAll Null kvs = Some t" "avlInvariant t"
    "set (keysOf t) = set (keysOf Null) \<union> fst ` set kvs"
    "map_of (inOrderNodes t) = map_of (inOrderNodes Null) ++ map_of (rev kvs)"
    using insertAll_invariant[OF avlInvariant_Null, of kvs] by blast
  have s: "sorted_wrt (<) (keysOf t)"
    using t(2) by (simp add: avlInvariant_def bstOrder_sorted)
  then have d: "distinct (keysOf t)"
    using strict_sorted_iff by blast
  show ?thesis
    using t s d avlInOrder_lines[of t] length_inOrderNodes[of t] by auto
qed

theorem avlInOrder_after_inserts_witness:
  "\<exists>t. insertAll Null [(''B'', course ''B''), (''A'', course ''A''), (''B'', course ''X'')] = Some t
     \<and> avlInOrder t = ''A: Title of A'' @ [CHR 0x0A] @ ''B: Title of X'' @ [CHR 0x0A]
     \<and> keysOf t = [''A'', ''B'']"
  using avlInOrder_after_inserts[of "[(''B'', course ''B''), (''A'', course ''A''), (''B'', course ''X'')]"]
  by (simp add: rebalance_def andAlso_def course_def)

section \<open>Overwriting a present key\<close>

lemma shapeOf_nodeHeight: "shapeOf a = shapeOf b \<Longrightarrow> nodeHeight a = nodeHeight b"
  by (cases a; cases b) auto

lemma map_overwrite_absent:
  "key \<notin> fst ` set xs \<Longrightarrow> map (\<lambda>(k, v). (k, if k = key then val else v)) xs = xs"
  by (induction xs) auto

lemma avlInsert_overwrite:
  assumes "bstOrder t" and "heightCorrect t" and "avlBalanced t" and "key \<in> set (keysOf t)"
  shows "\<exists>t'. avlInsertLog t key val = Some (t', []) \<and> shapeOf t' = shapeOf t
     \<and> inOrderNodes t' = map (\<lambda>(k, v). (k, if k = key then val else v)) (inOrderNodes t)"
  using assms
proof (induction t)
  case Null
  then show ?case by simp
next
  case (Node k v h l r)
  let ?f = "\<lambda>(k, v). (k, if k = key then val else v)"
  have bl: "bstOrder l" and br: "bstOrder r"
    and kl: "\<forall>x\<in>set (keysOf l). x < k" and kr: "\<forall>x\<in>set (keysOf r). k < x"
    using Node.prems(1) by (auto simp: list_all_iff)
  have l: "heightCorrect l" "avlBalanced l" and r: "heightCorrect r" "avlBalanced r"
    and h: "h = 1 + max (nodeHeight l) (nodeHeight r)"
    and old: "\<bar>nodeHeight l - nodeHeight r\<bar> \<le> 1"
    using Node.prems(2,3) by auto
  consider (lt) "key < k" | (gt) "k < key" | (eq) "key = k"
    by (cases key k rule: linorder_cases) auto
  then show ?case
  proof cases
    case lt
    have inl: "key \<in> set (keysOf l)" and nr: "key \<notin> fst ` set (inOrderNodes r)"
      using Node.prems(4) lt kr by (auto simp: keysOf_def)
    obtain l' where l': "avlInsertLog l key val = Some (l', [])" "shapeOf l' = shapeOf l"
      "inOrderNodes l' = map ?f (inOrderNodes l)"
      using Node.IH(1)[OF bl l inl] by blast
    have hl': "nodeHeight l' = nodeHeight l" using l'(2) by (rule shapeOf_nodeHeight)
    have rb: "rebalance k v h l' r key = Some (NoRotation, Node k v h l' r)"
      using rebalance_NoRotation[of l' r k v h key] old hl' h by simp
    have "avlInsertLog (Node k v h l r) key val = Some (Node k v h l' r, [])"
      using lt l'(1) rb by simp
    moreover have "shapeOf (Node k v h l' r) = shapeOf (Node k v h l r)"
      using l'(2) by simp
    moreover have "inOrderNodes (Node k v h l' r) = map ?f (inOrderNodes (Node k v h l r))"
      using l'(3) lt map_overwrite_absent[OF nr, of val] by auto
    ultimately show ?thesis by blast
  next
    case gt
    then have nlt: "\<not> key < k" "key \<noteq> k" by auto
    have inr: "key \<in> set (keysOf r)" and nl: "key \<notin> fst ` set (inOrderNodes l)"
      using Node.prems(4) gt kl by (auto simp: keysOf_def)
    obtain r' where r': "avlInsertLog r key val = Some (r', [])" "shapeOf r' = shapeOf r"
      "inOrderNodes r' = map ?f (inOrderNodes r)"
      using Node.IH(2)[OF br r inr] by blast
    have hr': "nodeHeight r' = nodeHeight r" using r'(2) by (rule shapeOf_nodeHeight)
    have rb: "rebalance k v h l r' key = Some (NoRotation, Node k v h l r')"
      using rebalance_NoRotation[of l r' k v h key] old hr' h by simp
    have "avlInsertLog (Node k v h l r) key val = Some (Node k v h l r', [])"
      using gt nlt r'(1) rb by simp
    moreover have "shapeOf (Node k v h l r') = shapeOf (Node k v h l r)"
      using r'(2) by simp
    moreover have "inOrderNodes (Node k v h l r') = map ?f (inOrderNodes (Node k v h l r))"
      using r'(3) nlt map_overwrite_absent[OF nl, of val] by auto
    ultimately show ?thesis by blast
  next
    case eq
    have nl: "key \<notin> fst ` set (inOrderNodes l)" and nr: "key \<notin> fst ` set (inOrderNodes r)"
      using eq kl kr by (auto simp: keysOf_def)
    have "inOrderNodes (Node k val h l r) = map ?f (inOrderNodes (Node k v h l r))"
      using eq map_overwrite_absent[OF nl, of val] map_overwrite_absent[OF nr, of val] by auto
    then show ?thesis using eq by simp
  qed
qed

text \<open>
  C3. For a tree \<open>t\<close> built by inserts into the empty tree and a key present in
  it, inserting that key with a new value returns a tree of the same shape
  (same nodes, links and height fields), takes no rotation branch, changes the
  value of the node with that key only, and a lookup of the key then returns
  the new value.
\<close>

theorem avlInsert_present_key:
  assumes "insertAll Null kvs = Some t" and "key \<in> set (keysOf t)"
  shows "\<exists>t'. avlInsert t key val = Some t' \<and> avlInsertLog t key val = Some (t', [])
     \<and> shapeOf t' = shapeOf t
     \<and> inOrderNodes t' = map (\<lambda>(k, v). (k, if k = key then val else v)) (inOrderNodes t)
     \<and> (\<exists>h l r. avlFind t' key = Node key val h l r)"
proof -
  have inv: "avlInvariant t"
    using insertAll_invariant[OF avlInvariant_Null, of kvs] assms(1) by auto
  then obtain t' where t': "avlInsertLog t key val = Some (t', [])" "shapeOf t' = shapeOf t"
     "inOrderNodes t' = map (\<lambda>(k, v). (k, if k = key then val else v)) (inOrderNodes t)"
    using avlInsert_overwrite[of t key val] assms(2) by (auto simp: avlInvariant_def)
  have ins: "avlInsert t key val = Some t'"
    using avlInsertLog_tree[of t key val] t'(1) by simp
  obtain t'' where t'': "avlInsert t key val = Some t''" "avlInvariant t''"
     "map_of (inOrderNodes t'') = (map_of (inOrderNodes t))(key \<mapsto> val)"
    using avlInsert_invariant[OF inv, of key val] by blast
  have "bstOrder t'" and "map_of (inOrderNodes t') key = Some val"
    using t'' ins by (auto simp: avlInvariant_def)
  then have "\<exists>h l r. avlFind t' key = Node key val h l r"
    using avlFind_map_of[of t' key] by simp
  then show ?thesis using ins t' by blast
qed

theorem avlInsert_present_key_witness:
  "insertAll Null [(''B'', course ''B''), (''A'', course ''A'')]
     = Some (Node ''B'' (course ''B'') 2 (Node ''A'' (course ''A'') 1 Null Null) Null)
   \<and> ''A'' \<in> set (keysOf (Node ''B'' (course ''B'') 2 (Node ''A'' (course ''A'') 1 Null Null) Null))
   \<and> (\<exists>t'. avlInsert (Node ''B'' (course ''B'') 2 (Node ''A'' (course ''A'') 1 Null Null) Null)
              ''A'' (course ''X'') = Some t'
         \<and> t' = Node ''B'' (course ''B'') 2 (Node ''A'' (course ''X'') 1 Null Null) Null
         \<and> avlFind t' ''A'' = Node ''A'' (course ''X'') 1 Null Null)"
  using avlInsert_present_key[of "[(''B'', course ''B''), (''A'', course ''A'')]"
      "Node ''B'' (course ''B'') 2 (Node ''A'' (course ''A'') 1 Null Null) Null" "''A''" "course ''X''"]
  by (simp add: rebalance_def andAlso_def)

section \<open>The four rotation cases on three keys\<close>

text \<open>
  C5, as the code behaves. With \<open>B\<close> the tree that has \<open>''B''\<close> at the root
  (height 2), \<open>''A''\<close> as its left and \<open>''C''\<close> as its right child (height 1
  each): inserting C, B, A takes the Left-Left branch once, which is one right
  rotation; A, B, C takes the Right-Right branch once, which is one left
  rotation; A, C, B takes the Right-Left branch (a right rotation of the right
  child, then a left rotation); C, A, B takes the Left-Right branch (a left
  rotation of the left child, then a right rotation). Each of the four
  sequences ends in the tree \<open>B\<close>, and no other insert rotates.
\<close>

theorem three_key_rotations:
  "insertAllLog Null [(''C'', c), (''B'', b), (''A'', a)]
     = Some (Node ''B'' b 2 (Node ''A'' a 1 Null Null) (Node ''C'' c 1 Null Null),
             [[], [], [LeftLeft]])
   \<and> rotateRight (Node ''C'' c 3 (Node ''B'' b 2 (Node ''A'' a 1 Null Null) Null) Null)
     = Some (Node ''B'' b 2 (Node ''A'' a 1 Null Null) (Node ''C'' c 1 Null Null))
   \<and> insertAllLog Null [(''A'', a), (''B'', b), (''C'', c)]
     = Some (Node ''B'' b 2 (Node ''A'' a 1 Null Null) (Node ''C'' c 1 Null Null),
             [[], [], [RightRight]])
   \<and> rotateLeft (Node ''A'' a 3 Null (Node ''B'' b 2 Null (Node ''C'' c 1 Null Null)))
     = Some (Node ''B'' b 2 (Node ''A'' a 1 Null Null) (Node ''C'' c 1 Null Null))
   \<and> insertAllLog Null [(''A'', a), (''C'', c), (''B'', b)]
     = Some (Node ''B'' b 2 (Node ''A'' a 1 Null Null) (Node ''C'' c 1 Null Null),
             [[], [], [RightLeft]])
   \<and> rotateRight (Node ''C'' c 2 (Node ''B'' b 1 Null Null) Null)
     = Some (Node ''B'' b 2 Null (Node ''C'' c 1 Null Null))
   \<and> rotateLeft (Node ''A'' a 3 Null (Node ''B'' b 2 Null (Node ''C'' c 1 Null Null)))
     = Some (Node ''B'' b 2 (Node ''A'' a 1 Null Null) (Node ''C'' c 1 Null Null))
   \<and> insertAllLog Null [(''C'', c), (''A'', a), (''B'', b)]
     = Some (Node ''B'' b 2 (Node ''A'' a 1 Null Null) (Node ''C'' c 1 Null Null),
             [[], [], [LeftRight]])
   \<and> rotateLeft (Node ''A'' a 2 Null (Node ''B'' b 1 Null Null))
     = Some (Node ''B'' b 2 (Node ''A'' a 1 Null Null) Null)
   \<and> rotateRight (Node ''C'' c 3 (Node ''B'' b 2 (Node ''A'' a 1 Null Null) Null) Null)
     = Some (Node ''B'' b 2 (Node ''A'' a 1 Null Null) (Node ''C'' c 1 Null Null))"
  by (simp add: rebalance_def andAlso_def)

text \<open>
  The sequence A, C, B does not take the Left-Right branch, and C, A, B does
  not take the Right-Left branch.
\<close>

theorem three_key_labels_counterexample:
  "map_option snd (insertAllLog Null [(''A'', course ''A''), (''C'', course ''C''), (''B'', course ''B'')])
     \<noteq> Some [[], [], [LeftRight]]
   \<and> map_option snd (insertAllLog Null [(''C'', course ''C''), (''A'', course ''A''), (''B'', course ''B'')])
     \<noteq> Some [[], [], [RightLeft]]"
  by (simp add: rebalance_def andAlso_def)

section \<open>Exhaustiveness of the rotation conditions\<close>

lemma count_conditions_left:
  "key \<noteq> kl \<Longrightarrow>
   count_list [Some (key < kl), Some False, Some (kl < key), Some False] (Some True) = 1"
  for key kl :: string
  by (cases key kl rule: linorder_cases) auto

lemma count_conditions_right:
  "key \<noteq> kr \<Longrightarrow>
   count_list [Some False, Some (kr < key), Some False, Some (key < kr)] (Some True) = 1"
  for key kr :: string
  by (cases key kr rule: linorder_cases) auto

lemma caseConditions_left:
  assumes "1 < nodeHeight l - nodeHeight r" and "keyOf l = Some kl" and "kl \<noteq> key"
  shows "None \<notin> set (caseConditions l r key)
     \<and> count_list (caseConditions l r key) (Some True) = 1"
proof -
  have "\<not> nodeHeight l - nodeHeight r < - 1" using assms(1) by arith
  then have "caseConditions l r key = [Some (key < kl), Some False, Some (kl < key), Some False]"
    using assms(1,2) by (simp add: caseConditions_def andAlso_def Let_def)
  then show ?thesis using count_conditions_left[of key kl] assms(3) by auto
qed

lemma caseConditions_right:
  assumes "nodeHeight l - nodeHeight r < - 1" and "keyOf r = Some kr" and "kr \<noteq> key"
  shows "None \<notin> set (caseConditions l r key)
     \<and> count_list (caseConditions l r key) (Some True) = 1"
proof -
  have "\<not> 1 < nodeHeight l - nodeHeight r" using assms(1) by arith
  then have "caseConditions l r key = [Some False, Some (kr < key), Some False, Some (key < kr)]"
    using assms(1,2) by (simp add: caseConditions_def andAlso_def Let_def)
  then show ?thesis using count_conditions_right[of key kr] assms(3) by auto
qed

lemma keyOf_cases: "t \<noteq> Null \<Longrightarrow> \<exists>k. keyOf t = Some k"
  by (cases t) auto

text \<open>
  C10. Let \<open>Node k v h l r\<close> satisfy height correctness and balance, and let
  \<open>key\<close> differ from \<open>k\<close>. The insertion into the child on the side of \<open>key\<close>
  returns a subtree, and the rebalancing code returns. It falls through to the
  final \<^verbatim>\<open>return node\<close> exactly when the updated node is balanced. When the
  balance factor of the updated node exceeds 1 in magnitude, the key of the
  child inserted into is not \<open>key\<close>, none of the four conditions faults, and
  exactly one of them holds.
\<close>

theorem rebalance_conditions_exhaustive:
  assumes "heightCorrect (Node k v h l r)" and "avlBalanced (Node k v h l r)"
  shows "(key < k \<longrightarrow>
           (\<exists>l' c t'. avlInsert l key val = Some l' \<and> rebalance k v h l' r key = Some (c, t')
              \<and> (c = NoRotation \<longleftrightarrow> \<bar>balanceFactor (updateHeight (Node k v h l' r))\<bar> \<le> 1)
              \<and> (1 < \<bar>balanceFactor (updateHeight (Node k v h l' r))\<bar> \<longrightarrow>
                   keyOf l' \<noteq> Some key \<and> None \<notin> set (caseConditions l' r key)
                   \<and> count_list (caseConditions l' r key) (Some True) = 1)))
       \<and> (k < key \<longrightarrow>
           (\<exists>r' c t'. avlInsert r key val = Some r' \<and> rebalance k v h l r' key = Some (c, t')
              \<and> (c = NoRotation \<longleftrightarrow> \<bar>balanceFactor (updateHeight (Node k v h l r'))\<bar> \<le> 1)
              \<and> (1 < \<bar>balanceFactor (updateHeight (Node k v h l r'))\<bar> \<longrightarrow>
                   keyOf r' \<noteq> Some key \<and> None \<notin> set (caseConditions l r' key)
                   \<and> count_list (caseConditions l r' key) (Some True) = 1)))"
proof -
  have l: "heightCorrect l" "avlBalanced l" and r: "heightCorrect r" "avlBalanced r"
    and old: "\<bar>nodeHeight l - nodeHeight r\<bar> \<le> 1"
    using assms by auto
  have hl0: "0 \<le> nodeHeight l" and hr0: "0 \<le> nodeHeight r"
    using l r nodeHeight_nonneg by auto
  have left: "\<exists>l' c t'. avlInsert l key val = Some l' \<and> rebalance k v h l' r key = Some (c, t')
              \<and> (c = NoRotation \<longleftrightarrow> \<bar>balanceFactor (updateHeight (Node k v h l' r))\<bar> \<le> 1)
              \<and> (1 < \<bar>balanceFactor (updateHeight (Node k v h l' r))\<bar> \<longrightarrow>
                   keyOf l' \<noteq> Some key \<and> None \<notin> set (caseConditions l' r key)
                   \<and> count_list (caseConditions l' r key) (Some True) = 1)" if lt: "key < k"
  proof -
    obtain l' where l': "avlInsert l key val = Some l'" "heightCorrect l'" "avlBalanced l'"
      "nodeHeight l' = nodeHeight l \<or> nodeHeight l' = nodeHeight l + 1 \<and> leansToward l' key"
      using avlInsert_balance[OF l, of key val] by blast
    obtain c t' where rb: "rebalance k v h l' r key = Some (c, t')"
      "c = NoRotation \<longleftrightarrow> \<bar>nodeHeight l' - nodeHeight r\<bar> \<le> 1"
      "1 < \<bar>nodeHeight l' - nodeHeight r\<bar> \<longrightarrow> keyOf l' \<noteq> Some key"
      using rebalance_left_step[OF l'(2,3) r old l'(4) lt, of v h] by blast
    have cc: "None \<notin> set (caseConditions l' r key)
        \<and> count_list (caseConditions l' r key) (Some True) = 1"
      if big: "1 < \<bar>nodeHeight l' - nodeHeight r\<bar>"
    proof -
      have pos: "1 < nodeHeight l' - nodeHeight r" using big l'(4) old by arith
      then have "l' \<noteq> Null" using hr0 by auto
      then obtain kl where kl: "keyOf l' = Some kl" using keyOf_cases by blast
      then have "kl \<noteq> key" using rb(3) big by auto
      then show ?thesis using caseConditions_left[OF pos kl] by simp
    qed
    show ?thesis using l'(1) rb cc by auto
  qed
  have right: "\<exists>r' c t'. avlInsert r key val = Some r' \<and> rebalance k v h l r' key = Some (c, t')
              \<and> (c = NoRotation \<longleftrightarrow> \<bar>balanceFactor (updateHeight (Node k v h l r'))\<bar> \<le> 1)
              \<and> (1 < \<bar>balanceFactor (updateHeight (Node k v h l r'))\<bar> \<longrightarrow>
                   keyOf r' \<noteq> Some key \<and> None \<notin> set (caseConditions l r' key)
                   \<and> count_list (caseConditions l r' key) (Some True) = 1)" if gt: "k < key"
  proof -
    obtain r' where r': "avlInsert r key val = Some r'" "heightCorrect r'" "avlBalanced r'"
      "nodeHeight r' = nodeHeight r \<or> nodeHeight r' = nodeHeight r + 1 \<and> leansToward r' key"
      using avlInsert_balance[OF r, of key val] by blast
    obtain c t' where rb: "rebalance k v h l r' key = Some (c, t')"
      "c = NoRotation \<longleftrightarrow> \<bar>nodeHeight l - nodeHeight r'\<bar> \<le> 1"
      "1 < \<bar>nodeHeight l - nodeHeight r'\<bar> \<longrightarrow> keyOf r' \<noteq> Some key"
      using rebalance_right_step[OF l r'(2,3) old r'(4) gt, of v h] by blast
    have cc: "None \<notin> set (caseConditions l r' key)
        \<and> count_list (caseConditions l r' key) (Some True) = 1"
      if big: "1 < \<bar>nodeHeight l - nodeHeight r'\<bar>"
    proof -
      have neg: "nodeHeight l - nodeHeight r' < - 1" using big r'(4) old by arith
      then have "r' \<noteq> Null" using hl0 by auto
      then obtain kr where kr: "keyOf r' = Some kr" using keyOf_cases by blast
      then have "kr \<noteq> key" using rb(3) big by auto
      then show ?thesis using caseConditions_right[OF neg kr] by simp
    qed
    show ?thesis using r'(1) rb cc by auto
  qed
  show ?thesis using left right by blast
qed

theorem rebalance_conditions_exhaustive_witness:
  "heightCorrect (Node ''C'' (course ''C'') 2 (Node ''B'' (course ''B'') 1 Null Null) Null)
   \<and> avlBalanced (Node ''C'' (course ''C'') 2 (Node ''B'' (course ''B'') 1 Null Null) Null)
   \<and> ''A'' < ''C''
   \<and> avlInsert (Node ''B'' (course ''B'') 1 Null Null) ''A'' (course ''A'')
       = Some (Node ''B'' (course ''B'') 2 (Node ''A'' (course ''A'') 1 Null Null) Null)
   \<and> 1 < \<bar>balanceFactor (updateHeight (Node ''C'' (course ''C'') 2
             (Node ''B'' (course ''B'') 2 (Node ''A'' (course ''A'') 1 Null Null) Null) Null))\<bar>
   \<and> map_option fst (rebalance ''C'' (course ''C'') 2
         (Node ''B'' (course ''B'') 2 (Node ''A'' (course ''A'') 1 Null Null) Null) Null ''A'')
       = Some LeftLeft
   \<and> count_list (caseConditions
         (Node ''B'' (course ''B'') 2 (Node ''A'' (course ''A'') 1 Null Null) Null) Null ''A'')
         (Some True) = 1"
  using rebalance_conditions_exhaustive[of "''C''" "course ''C''" 2
      "Node ''B'' (course ''B'') 1 Null Null" Null "''A''" "course ''A''"]
  by (simp add: rebalance_def andAlso_def caseConditions_def)

section \<open>Cross-reference resolution\<close>

lemmas parse_defs =
  parseCourseLine_def trim_def isspace_def splitCSVLine_def stripQuotes_def toUpper_def
  toupper_def lowerLetters_def upperLetters_def splitPrereqTokens_def flush_def Let_def

text \<open>
  C8. A store that holds exactly X100 (no prerequisites) and X200
  (prerequisites X100 and X999), inserted in either order: the lookup of X200
  finds its record, the lookup of X100 finds the record of X100, the lookup of
  X999 returns the null pointer, and \<^verbatim>\<open>printCourseInfo\<close> for X200 prints X100
  with its stored title and X999 with \<^verbatim>\<open>(title unknown)\<close>. The same holds of the
  store loaded from the two lines \<^verbatim>\<open>X100,Intro\<close> and \<^verbatim>\<open>X200,Next,X100,X999\<close>.
\<close>

theorem crossref_resolution:
  "insertAll Null [(''X100'', entityX100 t1), (''X200'', entityX200 t2)]
     = Some (Node ''X100'' (entityX100 t1) 2 Null (Node ''X200'' (entityX200 t2) 1 Null Null))
   \<and> insertAll Null [(''X200'', entityX200 t2), (''X100'', entityX100 t1)]
     = Some (Node ''X200'' (entityX200 t2) 2 (Node ''X100'' (entityX100 t1) 1 Null Null) Null)
   \<and> (\<forall>s \<in> {Node ''X100'' (entityX100 t1) 2 Null (Node ''X200'' (entityX200 t2) 1 Null Null),
              Node ''X200'' (entityX200 t2) 2 (Node ''X100'' (entityX100 t1) 1 Null Null) Null}.
         foundValue (avlFind s ''X200'') = Some (entityX200 t2)
       \<and> foundValue (avlFind s ''X100'') = Some (entityX100 t1)
       \<and> avlFind s ''X999'' = Null
       \<and> printCourseInfo s ''X200''
           = ''Course: X200 - '' @ t2 @ [CHR 0x0A] @ ''Prerequisites:'' @ [CHR 0x0A]
             @ ''  - X100 - '' @ t1 @ [CHR 0x0A]
             @ ''  - X999 - (title unknown)'' @ [CHR 0x0A])
   \<and> loadLines Null [''X100,Intro'', ''X200,Next,X100,X999'']
     = Some (Node ''X100'' (entityX100 ''Intro'') 2 Null
               (Node ''X200'' (entityX200 ''Next'') 1 Null Null))"
  by (simp add: rebalance_def andAlso_def entityX100_def entityX200_def printCourseInfo_def
      prereqLine_def parse_defs)

theorem crossref_resolution_witness:
  "printCourseInfo (Node ''X100'' (entityX100 ''Intro'') 2 Null
       (Node ''X200'' (entityX200 ''Next'') 1 Null Null)) ''X200''
     = ''Course: X200 - Next'' @ [CHR 0x0A] @ ''Prerequisites:'' @ [CHR 0x0A]
       @ ''  - X100 - Intro'' @ [CHR 0x0A] @ ''  - X999 - (title unknown)'' @ [CHR 0x0A]"
  using crossref_resolution[of "''Intro''" "''Next''"] by simp

section \<open>The record parser\<close>

text \<open>
  C9 at the line \<^verbatim>\<open>""" X1 """,T\<close>: the parse succeeds, and the course number is
  \<^verbatim>\<open>" X1 "\<close>, with a space on each side. Loaded into the store, that course is
  not found by \<^verbatim>\<open>printCourseInfo\<close>, which trims the number it is given.
\<close>

theorem parseCourseLine_untrimmed_number:
  "parseCourseLine quotedSpacesLine = Inr \<lparr>number = '' X1 '', title = ''T'', prerequisites = []\<rparr>
   \<and> trim '' X1 '' = ''X1''
   \<and> loadLines Null [quotedSpacesLine]
       = Some (Node '' X1 '' \<lparr>number = '' X1 '', title = ''T'', prerequisites = []\<rparr> 1 Null Null)
   \<and> printCourseInfo
         (Node '' X1 '' \<lparr>number = '' X1 '', title = ''T'', prerequisites = []\<rparr> 1 Null Null) '' X1 ''
       = ''Course '' @ [CHR 0x27] @ ''X1'' @ [CHR 0x27]
         @ '' was not found. Please check the course number and try again.'' @ [CHR 0x0A]"
  by (simp add: quotedSpacesLine_def printCourseInfo_def parse_defs)

section \<open>The height bound\<close>

lemma fib_mono_Suc: "fib n \<le> fib (Suc n)"
  by (induction n rule: fib.induct) auto

lemma fib_mono: "m \<le> n \<Longrightarrow> fib m \<le> fib n"
  by (induction n) (auto simp: le_Suc_eq intro: order_trans[OF _ fib_mono_Suc])

lemma fib_le_nodeCount:
  "heightCorrect t \<Longrightarrow> avlBalanced t \<Longrightarrow> fib (nat (nodeHeight t) + 2) \<le> nodeCount t + 1"
proof (induction t)
  case Null
  show ?case by (simp add: numeral_2_eq_2)
next
  case (Node k v h l r)
  have l: "heightCorrect l" "avlBalanced l" and r: "heightCorrect r" "avlBalanced r"
    and h: "h = 1 + max (nodeHeight l) (nodeHeight r)"
    and bal: "\<bar>nodeHeight l - nodeHeight r\<bar> \<le> 1"
    using Node.prems by auto
  define a where "a = nat (nodeHeight l)"
  define b where "b = nat (nodeHeight r)"
  have a0: "nodeHeight l = int a" and b0: "nodeHeight r = int b"
    using nodeHeight_nonneg l r by (auto simp: a_def b_def)
  have il: "fib (a + 2) \<le> nodeCount l + 1" and ir: "fib (b + 2) \<le> nodeCount r + 1"
    using Node.IH(1)[OF l] Node.IH(2)[OF r] by (auto simp: a_def b_def)
  have ab: "a \<le> b + 1" "b \<le> a + 1" using bal a0 b0 by auto
  have hh: "nat h = 1 + max a b" using h a0 b0 by auto
  have "fib (1 + max a b + 2) \<le> fib (a + 2) + fib (b + 2)"
  proof (cases "a \<le> b")
    case True
    then have "max a b = b" by simp
    moreover have "fib (Suc b) \<le> fib (a + 2)" using ab by (intro fib_mono) auto
    ultimately show ?thesis by (simp add: numeral_2_eq_2)
  next
    case False
    then have "max a b = a" by simp
    moreover have "fib (Suc a) \<le> fib (b + 2)" using ab by (intro fib_mono) auto
    ultimately show ?thesis by (simp add: numeral_2_eq_2)
  qed
  then show ?case using il ir hh by simp
qed

lemma goldenRatio_gt_1: "1 < goldenRatio"
proof -
  have "1 < sqrt 5" by (simp add: real_less_rsqrt)
  then show ?thesis by (simp add: goldenRatio_def)
qed

lemma goldenRatio_square: "goldenRatio ^ 2 = goldenRatio + 1"
  by (simp add: goldenRatio_def power2_eq_square field_simps)

lemma conjugate_square: "((1 - sqrt 5) / 2) ^ 2 = (1 - sqrt 5) / 2 + 1"
  by (simp add: power2_eq_square field_simps)

lemma power_step_of_square:
  fixes x :: real
  assumes "x ^ 2 = x + 1"
  shows "x ^ Suc (Suc n) = x ^ Suc n + x ^ n"
proof -
  have "x ^ Suc (Suc n) = x ^ n * x ^ 2" by (simp add: power2_eq_square)
  also have "\<dots> = x ^ n * (x + 1)" using assms by simp
  finally show ?thesis by (simp add: algebra_simps)
qed

lemma fib_binet:
  "sqrt 5 * real (fib n) = goldenRatio ^ n - ((1 - sqrt 5) / 2) ^ n"
proof (induction n rule: fib.induct)
  case 1
  show ?case by simp
next
  case 2
  show ?case by (simp add: goldenRatio_def field_simps)
next
  case (3 n)
  have "goldenRatio ^ Suc (Suc n) = goldenRatio ^ Suc n + goldenRatio ^ n"
    using goldenRatio_square by (rule power_step_of_square)
  moreover have "((1 - sqrt 5) / 2) ^ Suc (Suc n) = ((1 - sqrt 5) / 2) ^ Suc n + ((1 - sqrt 5) / 2) ^ n"
    using conjugate_square by (rule power_step_of_square)
  moreover have "sqrt 5 * real (fib (Suc (Suc n))) = sqrt 5 * real (fib (Suc n)) + sqrt 5 * real (fib n)"
    by (simp add: algebra_simps)
  ultimately show ?case using 3 by linarith
qed

lemma conjugate_abs: "\<bar>(1 - sqrt 5) / 2\<bar> \<le> 1"
proof -
  have "sqrt 5 \<le> 3" by (simp add: real_le_lsqrt)
  moreover have "1 < sqrt 5" by (simp add: real_less_rsqrt)
  ultimately show ?thesis by (simp add: abs_if)
qed

lemma goldenRatio_power_less:
  "goldenRatio ^ n < sqrt 5 * (real (fib n) + 1)"
proof -
  have "\<bar>((1 - sqrt 5) / 2) ^ n\<bar> \<le> 1"
    using conjugate_abs by (simp add: power_abs power_le_one)
  then have "((1 - sqrt 5) / 2) ^ n \<le> 1" by auto
  moreover have "1 < sqrt 5" by (simp add: real_less_rsqrt)
  moreover have "sqrt 5 * (real (fib n) + 1) = sqrt 5 * real (fib n) + sqrt 5"
    by (simp add: algebra_simps)
  ultimately show ?thesis using fib_binet[of n] by linarith
qed

lemma height_less_log_bound:
  assumes "heightCorrect t" and "avlBalanced t"
  shows "real_of_int (nodeHeight t) < log goldenRatio (sqrt 5 * (real (nodeCount t) + 2)) - 2"
proof -
  define n where "n = nat (nodeHeight t) + 2"
  have h: "real_of_int (nodeHeight t) = real n - 2"
    using nodeHeight_nonneg[OF assms(1)] by (simp add: n_def)
  have "real (fib n) \<le> real (nodeCount t + 1)"
    using fib_le_nodeCount[OF assms] unfolding n_def by (simp only: of_nat_le_iff)
  then have "real (fib n) \<le> real (nodeCount t) + 1"
    by simp
  then have "sqrt 5 * (real (fib n) + 1) \<le> sqrt 5 * (real (nodeCount t) + 2)"
    by simp
  then have lt: "goldenRatio ^ n < sqrt 5 * (real (nodeCount t) + 2)"
    using goldenRatio_power_less[of n] by linarith
  have pos: "0 < goldenRatio ^ n" using goldenRatio_gt_1 by simp
  have "log goldenRatio (goldenRatio ^ n) < log goldenRatio (sqrt 5 * (real (nodeCount t) + 2))"
    using goldenRatio_gt_1 pos lt by (subst log_less_cancel_iff) auto
  moreover have "log goldenRatio (goldenRatio ^ n) = real n"
    using goldenRatio_gt_1 by (simp add: log_nat_power)
  ultimately show ?thesis using h by simp
qed

lemma log2_less_of_power:
  fixes x :: real
  assumes "0 < x" and "x ^ m < 2 ^ n" and "0 < m"
  shows "log 2 x < real n / real m"
proof -
  have "log 2 (x ^ m) < log 2 (2 ^ n)"
    using assms by (subst log_less_cancel_iff) auto
  moreover have "log 2 (x ^ m) = real m * log 2 x"
    using assms(1) by (intro log_nat_power) simp
  moreover have "log 2 ((2::real) ^ n) = real n"
    by (simp add: log_nat_power)
  ultimately have "real m * log 2 x < real n" by simp
  then show ?thesis using assms(3) by (simp add: field_simps)
qed

lemma log2_611_upper: "log 2 611 < 833 / 90"
proof -
  have "(611::real) ^ 90 < 2 ^ 833" by simp
  then show ?thesis using log2_less_of_power[of 611 90 833] by simp
qed

lemma rounded_bound_below_13: "\<not> (13 \<le> 1.44 * log 2 (609 + 2) - 0.328)"
  using log2_611_upper by simp

section \<open>Every AVL tree is reached by inserting its nodes level by level\<close>

lemma quietInserts_insertAll:
  "quietInserts lo hi s xs s' \<Longrightarrow> insertAll s xs = Some s'"
  by (induction xs arbitrary: s) (auto split: option.splits)

lemma quietInserts_mono:
  "quietInserts lo hi s xs s' \<Longrightarrow> lo' \<le> lo \<Longrightarrow> hi \<le> hi' \<Longrightarrow> quietInserts lo' hi' s xs s'"
  by (induction xs arbitrary: s) (auto split: option.splits)

lemma quietInserts_append:
  "quietInserts lo hi s xs s1 \<Longrightarrow> quietInserts lo hi s1 ys s2 \<Longrightarrow>
   quietInserts lo hi s (xs @ ys) s2"
  by (induction xs arbitrary: s) (auto split: option.splits)

lemma quietInserts_left:
  assumes "quietInserts lo hi a xs a'" and "\<forall>x\<in>fst ` set xs. x < k"
    and "\<bar>lo - nodeHeight r\<bar> \<le> 1" and "\<bar>hi - nodeHeight r\<bar> \<le> 1"
    and "h = 1 + max (nodeHeight a) (nodeHeight r)"
  shows "quietInserts (1 + max lo (nodeHeight r)) (1 + max hi (nodeHeight r))
           (Node k v h a r) xs (Node k v (1 + max (nodeHeight a') (nodeHeight r)) a' r)"
  using assms(1,2,5)
proof (induction xs arbitrary: a h)
  case Nil
  then show ?case by simp
next
  case (Cons xv xs)
  obtain x v' where xv: "xv = (x, v')" by (cases xv)
  obtain s1 where s1: "avlInsert a x v' = Some s1" "lo \<le> nodeHeight s1" "nodeHeight s1 \<le> hi"
      "quietInserts lo hi s1 xs a'"
    using Cons.prems(1) xv by (auto split: option.splits)
  have lt: "x < k" and rest: "\<forall>x\<in>fst ` set xs. x < k"
    using Cons.prems(2) xv by auto
  have "\<bar>nodeHeight s1 - nodeHeight r\<bar> \<le> 1"
    using s1(2,3) assms(3,4) by arith
  then have rb: "rebalance k v h s1 r x
      = Some (NoRotation, Node k v (1 + max (nodeHeight s1) (nodeHeight r)) s1 r)"
    by (rule rebalance_NoRotation)
  have ins: "avlInsert (Node k v h a r) x v'
      = Some (Node k v (1 + max (nodeHeight s1) (nodeHeight r)) s1 r)"
    using lt s1(1) rb by simp
  have bounds: "1 + max lo (nodeHeight r) \<le> 1 + max (nodeHeight s1) (nodeHeight r)"
     "1 + max (nodeHeight s1) (nodeHeight r) \<le> 1 + max hi (nodeHeight r)"
    using s1(2,3) by auto
  have "quietInserts (1 + max lo (nodeHeight r)) (1 + max hi (nodeHeight r))
          (Node k v (1 + max (nodeHeight s1) (nodeHeight r)) s1 r) xs
          (Node k v (1 + max (nodeHeight a') (nodeHeight r)) a' r)"
    using Cons.IH[OF s1(4) rest] by simp
  then show ?case using ins bounds xv by simp
qed

lemma quietInserts_right:
  assumes "quietInserts lo hi a xs a'" and "\<forall>x\<in>fst ` set xs. k < x"
    and "\<bar>nodeHeight l - lo\<bar> \<le> 1" and "\<bar>nodeHeight l - hi\<bar> \<le> 1"
    and "h = 1 + max (nodeHeight l) (nodeHeight a)"
  shows "quietInserts (1 + max (nodeHeight l) lo) (1 + max (nodeHeight l) hi)
           (Node k v h l a) xs (Node k v (1 + max (nodeHeight l) (nodeHeight a')) l a')"
  using assms(1,2,5)
proof (induction xs arbitrary: a h)
  case Nil
  then show ?case by simp
next
  case (Cons xv xs)
  obtain x v' where xv: "xv = (x, v')" by (cases xv)
  obtain s1 where s1: "avlInsert a x v' = Some s1" "lo \<le> nodeHeight s1" "nodeHeight s1 \<le> hi"
      "quietInserts lo hi s1 xs a'"
    using Cons.prems(1) xv by (auto split: option.splits)
  have gt: "k < x" and rest: "\<forall>x\<in>fst ` set xs. k < x"
    using Cons.prems(2) xv by auto
  then have nlt: "\<not> x < k" by auto
  have "\<bar>nodeHeight l - nodeHeight s1\<bar> \<le> 1"
    using s1(2,3) assms(3,4) by arith
  then have rb: "rebalance k v h l s1 x
      = Some (NoRotation, Node k v (1 + max (nodeHeight l) (nodeHeight s1)) l s1)"
    by (rule rebalance_NoRotation)
  have ins: "avlInsert (Node k v h l a) x v'
      = Some (Node k v (1 + max (nodeHeight l) (nodeHeight s1)) l s1)"
    using gt nlt s1(1) rb by simp
  have bounds: "1 + max (nodeHeight l) lo \<le> 1 + max (nodeHeight l) (nodeHeight s1)"
     "1 + max (nodeHeight l) (nodeHeight s1) \<le> 1 + max (nodeHeight l) hi"
    using s1(2,3) by auto
  have "quietInserts (1 + max (nodeHeight l) lo) (1 + max (nodeHeight l) hi)
          (Node k v (1 + max (nodeHeight l) (nodeHeight s1)) l s1) xs
          (Node k v (1 + max (nodeHeight l) (nodeHeight a')) l a')"
    using Cons.IH[OF s1(4) rest] by simp
  then show ?case using ins bounds xv by simp
qed

lemma nodeHeight_cutAt:
  "heightCorrect t \<Longrightarrow> nodeHeight (cutAt d t) = min (int d) (nodeHeight t)"
proof (induction d arbitrary: t)
  case 0
  then show ?case using nodeHeight_nonneg[of t] by simp
next
  case (Suc d)
  show ?case
  proof (cases t)
    case Null
    then show ?thesis by simp
  next
    case (Node k v h l r)
    then have "heightCorrect l" "heightCorrect r" "h = 1 + max (nodeHeight l) (nodeHeight r)"
      using Suc.prems by auto
    then show ?thesis using Suc.IH[of l] Suc.IH[of r] Node by auto
  qed
qed

lemma levelNodes_subset: "set (levelNodes d t) \<subseteq> set (inOrderNodes t)"
  by (induction d t rule: levelNodes.induct) auto

lemma cutAt_full: "heightCorrect t \<Longrightarrow> nodeHeight t \<le> int d \<Longrightarrow> cutAt d t = t"
proof (induction d arbitrary: t)
  case 0
  then show ?case using nodeHeight_zero[of t] by simp
next
  case (Suc d)
  show ?case
  proof (cases t)
    case Null
    then show ?thesis by simp
  next
    case (Node k v h l r)
    then have "heightCorrect l" "heightCorrect r" "h = 1 + max (nodeHeight l) (nodeHeight r)"
      using Suc.prems by auto
    moreover from this have "nodeHeight l \<le> int d" "nodeHeight r \<le> int d"
      using Suc.prems(2) Node by auto
    ultimately show ?thesis using Suc.IH[of l] Suc.IH[of r] Node by simp
  qed
qed

lemma nodeCount_cutAt_Suc:
  "nodeCount (cutAt (Suc d) t) = nodeCount (cutAt d t) + length (levelNodes d t)"
proof (induction d arbitrary: t)
  case 0
  show ?case by (cases t) auto
next
  case (Suc d)
  show ?case
  proof (cases t)
    case Null
    then show ?thesis by simp
  next
    case (Node k v h l r)
    then show ?thesis using Suc.IH[of l] Suc.IH[of r] by simp
  qed
qed

lemma level_step:
  "bstOrder t \<Longrightarrow> heightCorrect t \<Longrightarrow> avlBalanced t \<Longrightarrow>
   quietInserts (nodeHeight (cutAt d t)) (nodeHeight (cutAt (Suc d) t))
     (cutAt d t) (levelNodes d t) (cutAt (Suc d) t)"
proof (induction d arbitrary: t)
  case 0
  show ?case by (cases t) auto
next
  case (Suc d)
  show ?case
  proof (cases t)
    case Null
    then show ?thesis by simp
  next
    case (Node k v h l r)
    have bl: "bstOrder l" and br: "bstOrder r"
      and kl: "\<forall>x\<in>set (keysOf l). x < k" and kr: "\<forall>x\<in>set (keysOf r). k < x"
      using Suc.prems(1) Node by (auto simp: list_all_iff)
    have l: "heightCorrect l" "avlBalanced l" and r: "heightCorrect r" "avlBalanced r"
      and bal: "\<bar>nodeHeight l - nodeHeight r\<bar> \<le> 1"
      using Suc.prems(2,3) Node by auto
    let ?l0 = "cutAt d l" and ?l1 = "cutAt (Suc d) l"
    let ?r0 = "cutAt d r" and ?r1 = "cutAt (Suc d) r"
    have hl0: "nodeHeight ?l0 = min (int d) (nodeHeight l)"
      and hl1: "nodeHeight ?l1 = min (int (Suc d)) (nodeHeight l)"
      and hr0: "nodeHeight ?r0 = min (int d) (nodeHeight r)"
      and hr1: "nodeHeight ?r1 = min (int (Suc d)) (nodeHeight r)"
      using l(1) r(1) by (simp_all only: nodeHeight_cutAt)
    have ql: "quietInserts (nodeHeight ?l0) (nodeHeight ?l1) ?l0 (levelNodes d l) ?l1"
      using Suc.IH[OF bl l] .
    have qr: "quietInserts (nodeHeight ?r0) (nodeHeight ?r1) ?r0 (levelNodes d r) ?r1"
      using Suc.IH[OF br r] .
    have keysl: "\<forall>x\<in>fst ` set (levelNodes d l). x < k"
      using kl levelNodes_subset[of d l] by (auto simp: keysOf_def)
    have keysr: "\<forall>x\<in>fst ` set (levelNodes d r). k < x"
      using kr levelNodes_subset[of d r] by (auto simp: keysOf_def)
    have b1: "\<bar>nodeHeight ?l0 - nodeHeight ?r0\<bar> \<le> 1"
      and b2: "\<bar>nodeHeight ?l1 - nodeHeight ?r0\<bar> \<le> 1"
      and b3: "\<bar>nodeHeight ?l1 - nodeHeight ?r1\<bar> \<le> 1"
      using bal unfolding hl0 hl1 hr0 hr1 by auto
    let ?A = "Node k v (1 + max (nodeHeight ?l0) (nodeHeight ?r0)) ?l0 ?r0"
    let ?B = "Node k v (1 + max (nodeHeight ?l1) (nodeHeight ?r0)) ?l1 ?r0"
    let ?C = "Node k v (1 + max (nodeHeight ?l1) (nodeHeight ?r1)) ?l1 ?r1"
    have q1: "quietInserts (1 + max (nodeHeight ?l0) (nodeHeight ?r0))
               (1 + max (nodeHeight ?l1) (nodeHeight ?r0)) ?A (levelNodes d l) ?B"
      using quietInserts_left[OF ql keysl b1 b2] by simp
    have q2: "quietInserts (1 + max (nodeHeight ?l1) (nodeHeight ?r0))
               (1 + max (nodeHeight ?l1) (nodeHeight ?r1)) ?B (levelNodes d r) ?C"
      using quietInserts_right[OF qr keysr b2 b3] by simp
    have m1: "1 + max (nodeHeight ?l0) (nodeHeight ?r0) \<le> 1 + max (nodeHeight ?l1) (nodeHeight ?r0)"
      and m2: "1 + max (nodeHeight ?l1) (nodeHeight ?r0) \<le> 1 + max (nodeHeight ?l1) (nodeHeight ?r1)"
      unfolding hl0 hl1 hr0 hr1 by auto
    have q1': "quietInserts (1 + max (nodeHeight ?l0) (nodeHeight ?r0))
               (1 + max (nodeHeight ?l1) (nodeHeight ?r1)) ?A (levelNodes d l) ?B"
      using quietInserts_mono[OF q1 order_refl m2] .
    have q2': "quietInserts (1 + max (nodeHeight ?l0) (nodeHeight ?r0))
               (1 + max (nodeHeight ?l1) (nodeHeight ?r1)) ?B (levelNodes d r) ?C"
      using quietInserts_mono[OF q2 m1 order_refl] .
    have "quietInserts (1 + max (nodeHeight ?l0) (nodeHeight ?r0))
               (1 + max (nodeHeight ?l1) (nodeHeight ?r1)) ?A (levelNodes d l @ levelNodes d r) ?C"
      using quietInserts_append[OF q1' q2'] .
    then show ?thesis using Node by simp
  qed
qed

lemma insertAll_append:
  "insertAll s (xs @ ys) = (case insertAll s xs of None \<Rightarrow> None | Some s1 \<Rightarrow> insertAll s1 ys)"
  by (induction xs arbitrary: s) (auto split: option.splits)

lemma insertAll_levels:
  assumes "bstOrder t" and "heightCorrect t" and "avlBalanced t"
  shows "insertAll Null (concat (map (\<lambda>d. levelNodes d t) [0..<n])) = Some (cutAt n t)"
proof (induction n)
  case 0
  show ?case by simp
next
  case (Suc n)
  have "insertAll (cutAt n t) (levelNodes n t) = Some (cutAt (Suc n) t)"
    using level_step[OF assms, of n] by (rule quietInserts_insertAll)
  then show ?case using Suc by (simp add: insertAll_append)
qed

lemma insertAll_levelOrder:
  assumes "bstOrder t" and "heightCorrect t" and "avlBalanced t"
  shows "insertAll Null (levelOrder t) = Some t"
proof -
  have "nodeHeight t \<le> int (nat (nodeHeight t))" by simp
  then have "cutAt (nat (nodeHeight t)) t = t"
    using cutAt_full[OF assms(2)] by blast
  then show ?thesis
    using insertAll_levels[OF assms, of "nat (nodeHeight t)"] by (simp add: levelOrder_def)
qed

lemma length_levels:
  "length (concat (map (\<lambda>d. levelNodes d t) [0..<n])) = nodeCount (cutAt n t)"
  by (induction n) (simp_all add: nodeCount_cutAt_Suc)

lemma length_levelOrder:
  assumes "heightCorrect t"
  shows "length (levelOrder t) = nodeCount t"
proof -
  have "nodeHeight t \<le> int (nat (nodeHeight t))" by simp
  then have "cutAt (nat (nodeHeight t)) t = t"
    using cutAt_full[OF assms] by blast
  then show ?thesis
    using length_levels[of t "nat (nodeHeight t)"] by (simp add: levelOrder_def)
qed

lemma distinct_levelOrder:
  assumes "bstOrder t" and "heightCorrect t" and "avlBalanced t"
  shows "distinct (map fst (levelOrder t))"
proof -
  have "sorted_wrt (<) (keysOf t)" using assms(1) by (simp add: bstOrder_sorted)
  then have d: "distinct (keysOf t)" using strict_sorted_iff by blast
  obtain t' where t': "insertAll Null (levelOrder t) = Some t'"
     "set (keysOf t') = set (keysOf Null) \<union> fst ` set (levelOrder t)"
    using insertAll_invariant[OF avlInvariant_Null, of "levelOrder t"] by blast
  have "t' = t" using t'(1) insertAll_levelOrder[OF assms] by simp
  then have "set (map fst (levelOrder t)) = set (keysOf t)" using t'(2) by simp
  then have "card (set (map fst (levelOrder t))) = length (keysOf t)"
    using d by (simp add: distinct_card)
  also have "\<dots> = length (map fst (levelOrder t))"
    using length_levelOrder[OF assms(2)] length_inOrderNodes[of t] by (simp add: keysOf_def)
  finally show ?thesis by (rule card_distinct)
qed

section \<open>The smallest AVL trees\<close>

lemma unaryKey_less: "unaryKey m < unaryKey n \<longleftrightarrow> m < n"
  unfolding unaryKey_def
proof (induction m arbitrary: n)
  case 0
  show ?case by (cases n) auto
next
  case (Suc m)
  show ?case using Suc[of "n - 1"] by (cases n) auto
qed

lemma nodeHeight_fibTree: "nodeHeight (fibTree h lo) = int h"
  by (induction h lo rule: fibTree.induct) auto

lemma heightCorrect_fibTree: "heightCorrect (fibTree h lo)"
  by (induction h lo rule: fibTree.induct) (auto simp: nodeHeight_fibTree)

lemma avlBalanced_fibTree: "avlBalanced (fibTree h lo)"
  by (induction h lo rule: fibTree.induct) (auto simp: nodeHeight_fibTree)

lemma nodeCount_fibTree: "nodeCount (fibTree h lo) = minNodes h"
  by (induction h lo rule: fibTree.induct) auto

lemma keys_fibTree:
  "set (keysOf (fibTree h lo)) \<subseteq> unaryKey ` {lo ..< lo + minNodes h}"
proof (induction h lo rule: fibTree.induct)
  case (1 lo)
  show ?case by simp
next
  case (2 lo)
  show ?case by simp
next
  case (3 h lo)
  let ?S = "unaryKey ` {lo ..< lo + minNodes (Suc (Suc h))}"
  have "unaryKey ` {lo ..< lo + minNodes (Suc h)} \<subseteq> ?S"
    by (intro image_mono) auto
  then have a: "set (keysOf (fibTree (Suc h) lo)) \<subseteq> ?S"
    using 3(1) by (rule order_trans[rotated])
  have "unaryKey ` {lo + minNodes (Suc h) + 1 ..< lo + minNodes (Suc h) + 1 + minNodes h} \<subseteq> ?S"
    by (intro image_mono) auto
  then have b: "set (keysOf (fibTree h (lo + minNodes (Suc h) + 1))) \<subseteq> ?S"
    using 3(2) by (rule order_trans[rotated])
  have c: "unaryKey (lo + minNodes (Suc h)) \<in> ?S"
    by (intro imageI) auto
  show ?case using a b c by (simp del: minNodes.simps)
qed

lemma bstOrder_fibTree: "bstOrder (fibTree h lo)"
proof (induction h lo rule: fibTree.induct)
  case (1 lo)
  show ?case by simp
next
  case (2 lo)
  show ?case by simp
next
  case (3 h lo)
  have "\<forall>x\<in>set (keysOf (fibTree (Suc h) lo)). x < unaryKey (lo + minNodes (Suc h))"
    using keys_fibTree[of "Suc h" lo] by (auto simp: unaryKey_less)
  moreover have "\<forall>x\<in>set (keysOf (fibTree h (lo + minNodes (Suc h) + 1))).
       unaryKey (lo + minNodes (Suc h)) < x"
    using keys_fibTree[of h "lo + minNodes (Suc h) + 1"] by (auto simp: unaryKey_less)
  ultimately show ?case using 3 by (simp add: list_all_iff)
qed

lemma minNodes_13: "minNodes 13 = 609"
  by code_simp

section \<open>Rational bounds of the logarithms\<close>

lemma lower_square_step:
  fixes x m m' e e' :: real
  assumes "m * 2 powr e \<le> x ^ n" and "0 \<le> m" and "m' * 2 ^ s \<le> m * m"
    and "e' = 2 * e + real s" and "n' = 2 * n"
  shows "m' * 2 powr e' \<le> x ^ n'"
proof -
  have "m' * 2 powr e' = (m' * 2 ^ s) * 2 powr (2 * e)"
    unfolding assms(4) by (simp add: powr_add powr_realpow)
  also have "\<dots> \<le> (m * m) * 2 powr (2 * e)"
    using assms(3) by (intro mult_right_mono) auto
  also have "\<dots> = (m * 2 powr e) ^ 2"
    by (simp add: power2_eq_square powr_add[symmetric])
  also have "\<dots> \<le> (x ^ n) ^ 2"
    using assms(1,2) by (intro power_mono) auto
  also have "\<dots> = x ^ n'"
    unfolding assms(5) by (simp add: power_mult[symmetric] mult.commute)
  finally show ?thesis .
qed

lemma upper_square_step:
  fixes x m m' e e' :: real
  assumes "x ^ n \<le> m * 2 powr e" and "0 \<le> x" and "m * m \<le> m' * 2 ^ s"
    and "e' = 2 * e + real s" and "n' = 2 * n"
  shows "x ^ n' \<le> m' * 2 powr e'"
proof -
  have "x ^ n' = (x ^ n) ^ 2"
    unfolding assms(5) by (simp add: power_mult[symmetric] mult.commute)
  also have "\<dots> \<le> (m * 2 powr e) ^ 2"
    using assms(1,2) by (intro power_mono) auto
  also have "\<dots> = (m * m) * 2 powr (2 * e)"
    by (simp add: power2_eq_square powr_add[symmetric])
  also have "\<dots> \<le> (m' * 2 ^ s) * 2 powr (2 * e)"
    using assms(3) by (intro mult_right_mono) auto
  also have "\<dots> = m' * 2 powr e'"
    unfolding assms(4) by (simp add: powr_add powr_realpow)
  finally show ?thesis .
qed

lemma lower_log_bound:
  fixes x m e :: real
  assumes "m * 2 powr e \<le> x ^ n" and "1 < x" and "2 ^ s \<le> m" and "0 < n"
  shows "(e + real s) / real n \<le> log 2 x"
proof -
  have "2 powr (e + real s) = 2 ^ s * 2 powr e"
    by (simp add: powr_add powr_realpow)
  also have "\<dots> \<le> m * 2 powr e"
    using assms(3) by (intro mult_right_mono) auto
  finally have "2 powr (e + real s) \<le> x ^ n"
    using assms(1) by simp
  then have "log 2 (2 powr (e + real s)) \<le> log 2 (x ^ n)"
    using assms(2) by (subst log_le_cancel_iff) auto
  moreover have "log 2 (x ^ n) = real n * log 2 x"
    using assms(2) by (intro log_nat_power) simp
  ultimately have "e + real s \<le> real n * log 2 x"
    by simp
  then show ?thesis using assms(4) by (simp add: field_simps)
qed

lemma upper_log_bound:
  fixes x m e :: real
  assumes "x ^ n \<le> m * 2 powr e" and "1 < x" and "m \<le> 2 ^ s" and "0 < n"
  shows "log 2 x \<le> (e + real s) / real n"
proof -
  have "m * 2 powr e \<le> 2 ^ s * 2 powr e"
    using assms(3) by (intro mult_right_mono) auto
  also have "\<dots> = 2 powr (e + real s)"
    by (simp add: powr_add powr_realpow)
  finally have "x ^ n \<le> 2 powr (e + real s)"
    using assms(1) by simp
  then have "log 2 (x ^ n) \<le> log 2 (2 powr (e + real s))"
    using assms(2) by (subst log_le_cancel_iff) auto
  moreover have "log 2 (x ^ n) = real n * log 2 x"
    using assms(2) by (intro log_nat_power) simp
  ultimately have "real n * log 2 x \<le> e + real s"
    by simp
  then show ?thesis using assms(4) by (simp add: field_simps)
qed

lemma goldenRatio_lower: "889523592383 * 2 powr (- 39) \<le> goldenRatio ^ 1"
proof -
  have "(2 * (889523592383 / 2 ^ 39) - 1) ^ 2 \<le> (5::real)"
    by (simp add: power2_eq_square)
  then have "2 * (889523592383 / 2 ^ 39) - 1 \<le> sqrt 5"
    by (rule real_le_rsqrt)
  then have "889523592383 / 2 ^ 39 \<le> goldenRatio"
    by (simp add: goldenRatio_def)
  moreover have "(2::real) powr (- 39) = 1 / 2 ^ 39"
    by (simp add: powr_minus_divide powr_realpow[symmetric])
  ultimately show ?thesis by simp
qed

lemma goldenRatio_power_lower:
  "878409720695 * 2 powr 90956 \<le> goldenRatio ^ 131072"
proof -
  have s0: "889523592383 * 2 powr (- 39) \<le> goldenRatio ^ 1"
    by (rule goldenRatio_lower)
  have s1: "719639703134 * 2 powr (- 38) \<le> goldenRatio ^ 2"
    by (rule lower_square_step[where s = 40, OF s0]) simp_all
  have s2: "942020601226 * 2 powr (- 37) \<le> goldenRatio ^ 4"
    by (rule lower_square_step[where s = 39, OF s1]) simp_all
  have s3: "807088156883 * 2 powr (- 34) \<le> goldenRatio ^ 8"
    by (rule lower_square_step[where s = 40, OF s2]) simp_all
  have s4: "592436929747 * 2 powr (- 28) \<le> goldenRatio ^ 16"
    by (rule lower_square_step[where s = 40, OF s3]) simp_all
  have s5: "638431657949 * 2 powr (- 17) \<le> goldenRatio ^ 32"
    by (rule lower_square_step[where s = 39, OF s4]) simp_all
  have s6: "741410952962 * 2 powr 5 \<le> goldenRatio ^ 64"
    by (rule lower_square_step[where s = 39, OF s5]) simp_all
  have s7: "999880651164 * 2 powr 49 \<le> goldenRatio ^ 128"
    by (rule lower_square_step[where s = 39, OF s6]) simp_all
  have s8: "909277620459 * 2 powr 138 \<le> goldenRatio ^ 256"
    by (rule lower_square_step[where s = 40, OF s7]) simp_all
  have s9: "751957296477 * 2 powr 316 \<le> goldenRatio ^ 512"
    by (rule lower_square_step[where s = 40, OF s8]) simp_all
  have s10: "1028528960387 * 2 powr 671 \<le> goldenRatio ^ 1024"
    by (rule lower_square_step[where s = 39, OF s9]) simp_all
  have s11: "962128817586 * 2 powr 1382 \<le> goldenRatio ^ 2048"
    by (rule lower_square_step[where s = 40, OF s10]) simp_all
  have s12: "841911843626 * 2 powr 2804 \<le> goldenRatio ^ 4096"
    by (rule lower_square_step[where s = 40, OF s11]) simp_all
  have s13: "644663989476 * 2 powr 5648 \<le> goldenRatio ^ 8192"
    by (rule lower_square_step[where s = 40, OF s12]) simp_all
  have s14: "755956824518 * 2 powr 11335 \<le> goldenRatio ^ 16384"
    by (rule lower_square_step[where s = 39, OF s13]) simp_all
  have s15: "1039499185090 * 2 powr 22709 \<le> goldenRatio ^ 32768"
    by (rule lower_square_step[where s = 39, OF s14]) simp_all
  have s16: "982762281458 * 2 powr 45458 \<le> goldenRatio ^ 65536"
    by (rule lower_square_step[where s = 40, OF s15]) simp_all
  have s17: "878409720695 * 2 powr 90956 \<le> goldenRatio ^ 131072"
    by (rule lower_square_step[where s = 40, OF s16]) simp_all
  show ?thesis by (rule s17)
qed

lemma five_power_upper:
  "(5::real) ^ 131072 \<le> 930524440161 * 2 powr 304300"
proof -
  have s0: "(5::real) ^ 1 \<le> 5 * 2 powr 0"
    by simp
  have s1: "(5::real) ^ 2 \<le> 25 * 2 powr 0"
    by (rule upper_square_step[where s = 0, OF s0]) simp_all
  have s2: "(5::real) ^ 4 \<le> 625 * 2 powr 0"
    by (rule upper_square_step[where s = 0, OF s1]) simp_all
  have s3: "(5::real) ^ 8 \<le> 390625 * 2 powr 0"
    by (rule upper_square_step[where s = 0, OF s2]) simp_all
  have s4: "(5::real) ^ 16 \<le> 152587890625 * 2 powr 0"
    by (rule upper_square_step[where s = 0, OF s3]) simp_all
  have s5: "(5::real) ^ 32 \<le> 677626357804 * 2 powr 35"
    by (rule upper_square_step[where s = 35, OF s4]) simp_all
  have s6: "(5::real) ^ 64 \<le> 835238971906 * 2 powr 109"
    by (rule upper_square_step[where s = 39, OF s5]) simp_all
  have s7: "(5::real) ^ 128 \<le> 634485459333 * 2 powr 258"
    by (rule upper_square_step[where s = 40, OF s6]) simp_all
  have s8: "(5::real) ^ 256 \<le> 732273834920 * 2 powr 555"
    by (rule upper_square_step[where s = 39, OF s7]) simp_all
  have s9: "(5::real) ^ 512 \<le> 975387537089 * 2 powr 1149"
    by (rule upper_square_step[where s = 39, OF s8]) simp_all
  have s10: "(5::real) ^ 1024 \<le> 865275840178 * 2 powr 2338"
    by (rule upper_square_step[where s = 40, OF s9]) simp_all
  have s11: "(5::real) ^ 2048 \<le> 680940756498 * 2 powr 4716"
    by (rule upper_square_step[where s = 40, OF s10]) simp_all
  have s12: "(5::real) ^ 4096 \<le> 843429577545 * 2 powr 9471"
    by (rule upper_square_step[where s = 39, OF s11]) simp_all
  have s13: "(5::real) ^ 8192 \<le> 646990385829 * 2 powr 18982"
    by (rule upper_square_step[where s = 40, OF s12]) simp_all
  have s14: "(5::real) ^ 16384 \<le> 761422705828 * 2 powr 38003"
    by (rule upper_square_step[where s = 39, OF s13]) simp_all
  have s15: "(5::real) ^ 32768 \<le> 1054585549265 * 2 powr 76045"
    by (rule upper_square_step[where s = 39, OF s14]) simp_all
  have s16: "(5::real) ^ 65536 \<le> 1011495151687 * 2 powr 152130"
    by (rule upper_square_step[where s = 40, OF s15]) simp_all
  have s17: "(5::real) ^ 131072 \<le> 930524440161 * 2 powr 304300"
    by (rule upper_square_step[where s = 40, OF s16]) simp_all
  show ?thesis by (rule s17)
qed

lemma log2_goldenRatio_lower: "90995 / 131072 \<le> log 2 goldenRatio"
  using lower_log_bound[where s = 39, OF goldenRatio_power_lower goldenRatio_gt_1] by simp

lemma log2_five_upper: "log 2 5 \<le> 304340 / 131072"
  using upper_log_bound[where s = 40, OF five_power_upper] by simp


lemma log2_sqrt5: "log 2 (sqrt 5) = log 2 5 / 2"
  by (simp add: log_def ln_sqrt)

lemma height_rounded_bound:
  assumes "heightCorrect t" and "avlBalanced t"
  shows "real_of_int (nodeHeight t) \<le> 1.4405 * log 2 (real (nodeCount t) + 2) - 0.3277"
proof -
  define p where "p = log 2 goldenRatio"
  define c where "c = log 2 5"
  define L where "L = log 2 (real (nodeCount t) + 2)"
  have p_lower: "90995 / 131072 \<le> p" unfolding p_def by (rule log2_goldenRatio_lower)
  have c_upper: "c \<le> 304340 / 131072" unfolding c_def by (rule log2_five_upper)
  have p_pos: "0 < p" using p_lower by linarith
  have L0: "0 \<le> L" unfolding L_def by simp
  have A: "1 \<le> 1.4405 * p" using p_lower by simp
  have B: "c / 2 \<le> 1.6723 * p" using c_upper p_lower by simp
  have "1 * L \<le> (1.4405 * p) * L" using A L0 by (rule mult_right_mono)
  then have "c / 2 + L \<le> (1.4405 * L + 1.6723) * p"
    using B by (simp add: algebra_simps)
  then have q: "(c / 2 + L) / p \<le> 1.4405 * L + 1.6723"
    using p_pos by (simp add: pos_divide_le_eq)
  have "log goldenRatio (sqrt 5 * (real (nodeCount t) + 2))
      = log 2 (sqrt 5 * (real (nodeCount t) + 2)) / p"
    unfolding p_def using goldenRatio_gt_1 by (intro log_base_change) auto
  also have "log 2 (sqrt 5 * (real (nodeCount t) + 2)) = c / 2 + L"
    unfolding c_def L_def by (subst log_mult) (auto simp: log2_sqrt5)
  finally have "log goldenRatio (sqrt 5 * (real (nodeCount t) + 2)) = (c / 2 + L) / p" .
  then have "real_of_int (nodeHeight t) < (c / 2 + L) / p - 2"
    using height_less_log_bound[OF assms] by simp
  then show ?thesis using q unfolding L_def by simp
qed

section \<open>The scale property\<close>

text \<open>
  C6, as the code behaves. Inserting \<open>N\<close> distinct keys in any order returns a
  tree whose height is less than \<open>log\<^sub>\<phi> (\<surd>5 (N + 2)) - 2\<close>, with \<open>\<phi>\<close> the golden
  ratio (the AVL height bound), and so at most \<open>1.4405 log\<^sub>2 (N + 2) - 0.3277\<close>.
\<close>

theorem insert_height_bound:
  assumes "distinct (map fst kvs)" and "length kvs = N"
  shows "\<exists>t. insertAll Null kvs = Some t
     \<and> real_of_int (nodeHeight t) < log goldenRatio (sqrt 5 * (real N + 2)) - 2
     \<and> real_of_int (nodeHeight t) \<le> 1.4405 * log 2 (real N + 2) - 0.3277"
proof -
  obtain t where t: "insertAll Null kvs = Some t" "avlInvariant t"
    "set (keysOf t) = set (keysOf Null) \<union> fst ` set kvs"
    using insertAll_invariant[OF avlInvariant_Null, of kvs] by blast
  have "sorted_wrt (<) (keysOf t)" using t(2) by (simp add: avlInvariant_def bstOrder_sorted)
  then have "distinct (keysOf t)" using strict_sorted_iff by blast
  then have "length (keysOf t) = card (set (keysOf t))" by (simp add: distinct_card)
  also have "\<dots> = card (set (map fst kvs))" using t(3) by simp
  also have "\<dots> = N" using distinct_card[OF assms(1)] assms(2) by simp
  finally have "nodeCount t = N"
    using length_inOrderNodes[of t] by (simp add: keysOf_def)
  then show ?thesis
    using height_less_log_bound[of t] height_rounded_bound[of t] t(1,2)
    by (auto simp: avlInvariant_def)
qed

theorem insert_height_bound_witness:
  "distinct (map fst [(''C'', course ''C''), (''B'', course ''B''), (''A'', course ''A'')])
   \<and> length [(''C'', course ''C''), (''B'', course ''B''), (''A'', course ''A'')] = 3
   \<and> insertAll Null [(''C'', course ''C''), (''B'', course ''B''), (''A'', course ''A'')]
       = Some (Node ''B'' (course ''B'') 2 (Node ''A'' (course ''A'') 1 Null Null)
                 (Node ''C'' (course ''C'') 1 Null Null))
   \<and> real_of_int 2 < log goldenRatio (sqrt 5 * (real 3 + 2)) - 2
   \<and> real_of_int 2 \<le> 1.4405 * log 2 (real 3 + 2) - 0.3277"
  using insert_height_bound[of "[(''C'', course ''C''), (''B'', course ''B''), (''A'', course ''A'')]" 3]
  by (simp add: rebalance_def andAlso_def)

text \<open>
  The bound with the rounded constants fails at \<open>N = 609\<close>: the 609 distinct
  keys of \<open>fibInserts13\<close> give a tree of height 13, and
  \<open>1.44 log\<^sub>2 611 - 0.328\<close> is less than 13.
\<close>

theorem rounded_height_bound_counterexample:
  "length fibInserts13 = 609 \<and> distinct (map fst fibInserts13)
   \<and> map_option nodeHeight (insertAll Null fibInserts13) = Some 13
   \<and> \<not> (real_of_int 13 \<le> 1.44 * log 2 (609 + 2) - 0.328)"
proof -
  have v: "bstOrder (fibTree 13 1)" "heightCorrect (fibTree 13 1)" "avlBalanced (fibTree 13 1)"
    by (rule bstOrder_fibTree heightCorrect_fibTree avlBalanced_fibTree)+
  have "length fibInserts13 = 609"
    unfolding fibInserts13_def using length_levelOrder[OF v(2)]
    by (simp only: nodeCount_fibTree minNodes_13)
  moreover have "distinct (map fst fibInserts13)"
    unfolding fibInserts13_def using v by (rule distinct_levelOrder)
  moreover have "map_option nodeHeight (insertAll Null fibInserts13) = Some 13"
    unfolding fibInserts13_def using insertAll_levelOrder[OF v]
    by (simp add: nodeHeight_fibTree)
  moreover have "\<not> (real_of_int 13 \<le> 1.44 * log 2 (609 + 2) - 0.328)"
    using log2_611_upper by simp
  ultimately show ?thesis by blast
qed

section \<open>What the record parser does guarantee\<close>

lemma letters_facts:
  "length lowerLetters = length upperLetters"
  "set upperLetters \<inter> set lowerLetters = {}"
  "\<forall>c\<in>set lowerLetters. \<not> isspace c"
  "\<forall>c\<in>set upperLetters. \<not> isspace c"
  by (simp_all add: lowerLetters_def upperLetters_def isspace_def)

lemma toupper_cases:
  "toupper c = c \<and> c \<notin> set lowerLetters \<or> toupper c \<in> set upperLetters \<and> c \<in> set lowerLetters"
proof (cases "map_of (zip lowerLetters upperLetters) c")
  case None
  then have "c \<notin> set lowerLetters"
    using map_of_zip_is_None[OF letters_facts(1), of c] by simp
  then show ?thesis using None by (simp add: toupper_def)
next
  case (Some u)
  then have "(c, u) \<in> set (zip lowerLetters upperLetters)"
    by (rule map_of_SomeD)
  then have "c \<in> set lowerLetters" "u \<in> set upperLetters"
    by (auto dest: set_zip_leftD set_zip_rightD)
  then show ?thesis using Some by (simp add: toupper_def)
qed

lemma toupper_upper: "c \<in> set lowerLetters \<Longrightarrow> toupper c \<in> set upperLetters"
  using toupper_cases[of c] by fast

lemma toupper_other: "c \<notin> set lowerLetters \<Longrightarrow> toupper c = c"
  using toupper_cases[of c] by fast

lemma upper_not_lower: "u \<in> set upperLetters \<Longrightarrow> u \<notin> set lowerLetters"
  using letters_facts(2) by (simp only: disjoint_iff) fast

lemma toupper_idem: "toupper (toupper c) = toupper c"
proof (cases "c \<in> set lowerLetters")
  case True
  then have "toupper c \<notin> set lowerLetters"
    by (intro upper_not_lower toupper_upper)
  then show ?thesis by (rule toupper_other)
next
  case False
  then have "toupper c = c" by (rule toupper_other)
  then show ?thesis by simp
qed

lemma toUpper_idem: "toUpper (toUpper s) = toUpper s"
  by (simp add: toUpper_def toupper_idem)

lemma isspace_toupper: "isspace (toupper c) \<longleftrightarrow> isspace c"
proof (cases "c \<in> set lowerLetters")
  case True
  then have "\<not> isspace c" and "\<not> isspace (toupper c)"
    using letters_facts(3,4) toupper_upper[OF True] by fast+
  then show ?thesis by simp
next
  case False
  then have "toupper c = c" by (rule toupper_other)
  then show ?thesis by simp
qed

lemma trim_no_space:
  assumes "\<forall>c\<in>set s. \<not> isspace c"
  shows "trim s = s"
proof -
  have "dropWhile isspace s = s" using assms by (cases s) auto
  moreover have "dropWhile isspace (rev s) = rev s" using assms by (cases "rev s") auto
  ultimately show ?thesis by (simp add: trim_def)
qed

lemma cleanTokens_flush:
  "cleanTokens ts \<Longrightarrow> \<forall>c\<in>set token. \<not> isspace c \<Longrightarrow> cleanTokens (flush token ts)"
  by (simp add: flush_def trim_no_space cleanTokens_def)

lemma cleanTokens_splitPrereq:
  "cleanTokens ts \<Longrightarrow> \<forall>c\<in>set token. \<not> isspace c \<Longrightarrow> cleanTokens (splitPrereq token ts s)"
proof (induction s arbitrary: token ts)
  case Nil
  then show ?case by (simp add: cleanTokens_flush)
next
  case (Cons c s)
  show ?case
  proof (cases "isspace c \<or> c = CHR ''|'' \<or> c = CHR '';'' \<or> c = CHR '',''")
    case True
    have "cleanTokens (splitPrereq [] (flush token ts) s)"
      using Cons.prems by (intro Cons.IH cleanTokens_flush) auto
    then show ?thesis using True by simp
  next
    case False
    have "cleanTokens (splitPrereq (token @ [c]) ts s)"
      using Cons.prems False by (intro Cons.IH) auto
    then show ?thesis using False by simp
  qed
qed

lemma cleanTokens_splitPrereqTokens: "cleanTokens (splitPrereqTokens s)"
  unfolding splitPrereqTokens_def
  by (rule cleanTokens_splitPrereq) (simp_all add: cleanTokens_def)

lemma toUpper_clean:
  assumes "t \<noteq> []" and "\<forall>c\<in>set t. \<not> isspace c"
  shows "toUpper t \<noteq> [] \<and> trim (toUpper t) = toUpper t \<and> toUpper (toUpper t) = toUpper t"
proof -
  have "\<forall>c\<in>set (toUpper t). \<not> isspace c"
    using assms(2) by (auto simp: toUpper_def isspace_toupper)
  then have "trim (toUpper t) = toUpper t" by (rule trim_no_space)
  moreover have "toUpper t \<noteq> []" using assms(1) by (simp add: toUpper_def)
  ultimately show ?thesis by (simp add: toUpper_idem)
qed

lemma distinct_remdups_adj_sorted: "sorted xs \<Longrightarrow> distinct (remdups_adj xs)"
  for xs :: "string list"
  by (induction xs rule: remdups_adj.induct) auto

text \<open>
  On every line on which \<^verbatim>\<open>parseCourseLine\<close> succeeds, the course number is not
  empty and is upper-cased, and the prerequisites are non-empty, free of white
  space, upper-cased, sorted and without duplicates.
\<close>

lemma parseCourseLine_normalised:
  assumes "parseCourseLine line = Inr c"
  shows "number c \<noteq> [] \<and> toUpper (number c) = number c
     \<and> (\<forall>p\<in>set (prerequisites c). p \<noteq> [] \<and> trim p = p \<and> toUpper p = p)
     \<and> sorted (prerequisites c) \<and> distinct (prerequisites c)"
proof -
  define ln where "ln = (if line \<noteq> [] \<and> last line = CHR 0x0D then butlast line else line)"
  define flds where "flds = map (\<lambda>f. stripQuotes (trim f)) (splitCSVLine ln)"
  define prereqs where "prereqs = concat (map (\<lambda>f. if f \<noteq> [] then
       map toUpper (filter (\<lambda>tok. tok \<noteq> []) (splitPrereqTokens f)) else []) (drop 2 flds))"
  have "parseCourseLine line =
     (if trim ln = [] \<or> hd (trim ln) = CHR ''#'' then Inl ''skip''
      else if length flds < 2 \<or> flds ! 0 = [] \<or> flds ! 1 = [] then
        Inl ''Malformed line: requires course number and title.''
      else Inr \<lparr>number = toUpper (flds ! 0), title = flds ! 1,
                 prerequisites = remdups_adj (sort prereqs)\<rparr>)"
    unfolding parseCourseLine_def ln_def flds_def prereqs_def by (simp only: Let_def)
  then have c: "c = \<lparr>number = toUpper (flds ! 0), title = flds ! 1,
                 prerequisites = remdups_adj (sort prereqs)\<rparr>"
    and ne: "flds ! 0 \<noteq> []"
    using assms by (auto split: if_splits)
  have n: "number c \<noteq> []" "toUpper (number c) = number c"
    using c ne by (simp_all add: toUpper_idem) (simp add: toUpper_def)
  have p: "p \<noteq> [] \<and> trim p = p \<and> toUpper p = p" if pp: "p \<in> set prereqs" for p
  proof -
    obtain f where "f \<noteq> []" and "p \<in> toUpper ` {x \<in> set (splitPrereqTokens f). x \<noteq> []}"
      using pp unfolding prereqs_def by auto
    then obtain t where t: "t \<in> set (splitPrereqTokens f)" "p = toUpper t"
      by auto
    then have "t \<noteq> []" "\<forall>ch\<in>set t. \<not> isspace ch"
      using cleanTokens_splitPrereqTokens[of f] by (auto simp: cleanTokens_def)
    then show ?thesis using toUpper_clean[of t] t(2) by simp
  qed
  have s: "sorted (prerequisites c)" "distinct (prerequisites c)"
    using c by (simp_all add: distinct_remdups_adj_sorted)
  have "\<forall>p\<in>set (prerequisites c). p \<noteq> [] \<and> trim p = p \<and> toUpper p = p"
    using p c by simp
  then show ?thesis using n s by blast
qed

end
